theory Spec2Isabelle
  imports Complex_Main "HOL-Library.Word" "HOL-Library.Log_Nat" "HOL-Library.Multiset"
begin

section \<open>Machine types and faults\<close>

type_synonym u16 = "16 word"
type_synonym u32 = "32 word"

text \<open>
  C leaves two operations of this module undefined: an integer division whose divisor is
  zero, and a conversion of a floating value to an unsigned integer that cannot hold its
  integral part. In the model they are results of their own, not values.
\<close>

datatype fault = DivisionByZero | ConversionOutOfRange

section \<open>Single-precision arithmetic\<close>

text \<open>
  The controller computes in C \<open>float\<close>, which on the target (Cortex-M4, FPv4-SP) is
  IEEE 754 binary32 with the default rounding, to nearest with ties to even. A value is
  a NaN, an infinity with its sign, or a finite number with its sign and its magnitude as
  a rational; a zero keeps its sign. NaN payloads are not told apart. Every operation
  rounds its exact result once, as the C abstract machine prescribes for an evaluation
  in the range and precision of the type.
\<close>

datatype f32 = NaN | Inf bool | Fin bool rat

text \<open>The exponent of the leading bit of a positive rational: the floor of its binary logarithm.\<close>

definition ilog2 :: "rat \<Rightarrow> int" where
  "ilog2 q = (let (a, b) = quotient_of q;
                   d = bitlen a - bitlen b
               in if 2 powi d \<le> q then d else d - 1)"

definition round_ties_even :: "rat \<Rightarrow> int" where
  "round_ties_even x =
     (let n = \<lfloor>x\<rfloor>; r = x - of_int n
      in if r < 1 / 2 then n
         else if 1 / 2 < r then n + 1
         else if even n then n else n + 1)"

text \<open>
  The spacing of binary32 numbers around a positive magnitude: 24 significant bits, and
  the smallest exponent -126 (below it the numbers are subnormal and equally spaced).
\<close>

definition ulp32 :: "rat \<Rightarrow> rat" where
  "ulp32 m = 2 powi (max (ilog2 m) (- 126) - 23)"

definition rnd_mag :: "rat \<Rightarrow> rat" where
  "rnd_mag m = (if m = 0 then 0 else of_int (round_ties_even (m / ulp32 m)) * ulp32 m)"

text \<open>Rounding a sign and an exact magnitude; a rounded magnitude of \<open>2 ^ 128\<close> or more overflows.\<close>

definition rnd32 :: "bool \<Rightarrow> rat \<Rightarrow> f32" where
  "rnd32 sign m = (if 2 powi 128 \<le> rnd_mag m then Inf sign else Fin sign (rnd_mag m))"

definition f32_of_rat :: "rat \<Rightarrow> f32" where
  "f32_of_rat q = rnd32 (q < 0) \<bar>q\<bar>"

definition fin_val :: "bool \<Rightarrow> rat \<Rightarrow> rat" where
  "fin_val sign m = (if sign then - m else m)"

fun fneg :: "f32 \<Rightarrow> f32" where
  "fneg NaN = NaN"
| "fneg (Inf s) = Inf (\<not> s)"
| "fneg (Fin s a) = Fin (\<not> s) a"

fun fadd :: "f32 \<Rightarrow> f32 \<Rightarrow> f32" where
  "fadd NaN y = NaN"
| "fadd x NaN = NaN"
| "fadd (Inf s) (Inf t) = (if s = t then Inf s else NaN)"
| "fadd (Inf s) (Fin t b) = Inf s"
| "fadd (Fin s a) (Inf t) = Inf t"
| "fadd (Fin s a) (Fin t b) =
     (let v = fin_val s a + fin_val t b
      in if v = 0 then Fin (s \<and> t) 0 else f32_of_rat v)"

definition fsub :: "f32 \<Rightarrow> f32 \<Rightarrow> f32" where
  "fsub x y = fadd x (fneg y)"

fun fmul :: "f32 \<Rightarrow> f32 \<Rightarrow> f32" where
  "fmul NaN y = NaN"
| "fmul x NaN = NaN"
| "fmul (Inf s) (Inf t) = Inf (s \<noteq> t)"
| "fmul (Inf s) (Fin t b) = (if b = 0 then NaN else Inf (s \<noteq> t))"
| "fmul (Fin s a) (Inf t) = (if a = 0 then NaN else Inf (s \<noteq> t))"
| "fmul (Fin s a) (Fin t b) = rnd32 (s \<noteq> t) (a * b)"

fun fdiv :: "f32 \<Rightarrow> f32 \<Rightarrow> f32" where
  "fdiv NaN y = NaN"
| "fdiv x NaN = NaN"
| "fdiv (Inf s) (Inf t) = NaN"
| "fdiv (Inf s) (Fin t b) = Inf (s \<noteq> t)"
| "fdiv (Fin s a) (Inf t) = Fin (s \<noteq> t) 0"
| "fdiv (Fin s a) (Fin t b) =
     (if b = 0 then (if a = 0 then NaN else Inf (s \<noteq> t))
      else rnd32 (s \<noteq> t) (a / b))"

text \<open>The comparisons \<open><\<close> and \<open>>\<close>: false when an operand is a NaN; the two zeros are equal.\<close>

fun flt :: "f32 \<Rightarrow> f32 \<Rightarrow> bool" where
  "flt NaN y = False"
| "flt x NaN = False"
| "flt (Inf s) (Inf t) = (s \<and> \<not> t)"
| "flt (Inf s) (Fin t b) = s"
| "flt (Fin s a) (Inf t) = (\<not> t)"
| "flt (Fin s a) (Fin t b) = (fin_val s a < fin_val t b)"

definition fgt :: "f32 \<Rightarrow> f32 \<Rightarrow> bool" where
  "fgt x y = flt y x"

text \<open>A finite value between two rationals; an infinity or a NaN is in no range.\<close>

definition f32_in_range :: "f32 \<Rightarrow> rat \<Rightarrow> rat \<Rightarrow> bool" where
  "f32_in_range x lo hi =
     (case x of Fin sg m \<Rightarrow> lo \<le> fin_val sg m \<and> fin_val sg m \<le> hi | _ \<Rightarrow> False)"

text \<open>The conversion of an unsigned 32-bit integer to \<open>float\<close> rounds like the arithmetic.\<close>

definition u32_to_f32 :: "u32 \<Rightarrow> f32" where
  "u32_to_f32 x = f32_of_rat (of_int (uint x))"

text \<open>
  The conversion of a \<open>float\<close> to an unsigned 32-bit integer discards the fractional part;
  when the integral part is not a value of the integer type, C leaves the behaviour
  undefined.
\<close>

fun f32_to_u32 :: "f32 \<Rightarrow> fault + u32" where
  "f32_to_u32 NaN = Inl ConversionOutOfRange"
| "f32_to_u32 (Inf s) = Inl ConversionOutOfRange"
| "f32_to_u32 (Fin s a) =
     (if s then (if \<lfloor>a\<rfloor> = 0 then Inr 0 else Inl ConversionOutOfRange)
      else if \<lfloor>a\<rfloor> < 2 ^ 32 then Inr (word_of_int \<lfloor>a\<rfloor>)
      else Inl ConversionOutOfRange)"

section \<open>Fan speed regulator (modules/fan/fan.c): data model\<close>

text \<open>
  The module's static variables, the fields of the TIM9 handle and of the timer that the
  module uses (\<open>Init.Period\<close> and the compare register of channel 1), and the static
  local \<open>f_esum\<close> of the controller. The median module keeps its own private state; its
  type is the parameter \<open>'f\<close>, and the field \<open>median\<close> holds it.
\<close>

record 'f fan_state =
  g_u32_ticks_last :: u32
  g_u32_time_diff :: u32
  g_u32_cpu_ticks_now :: u32
  g_u32_target_rpm :: u32
  f_esum :: f32
  tim9_period :: u32
  tim9_ccr1 :: u32
  median :: 'f

text \<open>The static initialisers, before \<open>fan_control_init\<close> has run.\<close>

definition fan_static_init :: "'f \<Rightarrow> 'f fan_state" where
  "fan_static_init f =
     \<lparr>g_u32_ticks_last = 0, g_u32_time_diff = 0, g_u32_cpu_ticks_now = 0,
      g_u32_target_rpm = 0, f_esum = Fin False 0, tim9_period = 0, tim9_ccr1 = 0,
      median = f\<rparr>"

text \<open>\<open>FAN_TACHO_OUTPUT\<close> is \<open>GPIO_PIN_6\<close>, which the vendor header defines as \<open>0x0040\<close>.\<close>

definition FAN_TACHO_OUTPUT :: u16 where
  "FAN_TACHO_OUTPUT = 0x0040"

text \<open>The controller's sampling time and gains: the literals \<open>0.02f\<close>, \<open>0.04f\<close>, \<open>0.03f\<close>.\<close>

definition g_f_ta :: f32 where
  "g_f_ta = f32_of_rat (2 / 100)"

definition g_f_kp :: f32 where
  "g_f_kp = f32_of_rat (4 / 100)"

definition g_f_ki :: f32 where
  "g_f_ki = f32_of_rat (3 / 100)"

section \<open>Initialisation: \<open>fan_timer_init\<close>, \<open>fan_control_init\<close>\<close>

text \<open>
  Of the hardware set-up, the state keeps what the controller reads and writes later:
  the period of the PWM timer, and the pulse that \<open>HAL_TIM_OC_ConfigChannel\<close> loads into
  the compare register.
\<close>

definition fan_timer_init :: "'f fan_state \<Rightarrow> 'f fan_state" where
  "fan_timer_init s = s\<lparr>tim9_period := 400 - 1, tim9_ccr1 := (400 div 100) * 50\<rparr>"

definition fan_control_init :: "'f fan_state \<Rightarrow> 'f fan_state" where
  "fan_control_init s = fan_timer_init s"

section \<open>Pulse capture: \<open>HAL_GPIO_EXTI_Callback\<close>\<close>

text \<open>
  \<open>counter\<close> is the value read from the free-running timer TIM2 and \<open>tick\<close> the value
  of \<open>HAL_GetTick()\<close> at the edge.
\<close>

definition HAL_GPIO_EXTI_Callback :: "u16 \<Rightarrow> u32 \<Rightarrow> u32 \<Rightarrow> 'f fan_state \<Rightarrow> 'f fan_state" where
  "HAL_GPIO_EXTI_Callback gpio_pin counter tick s =
     (if gpio_pin = FAN_TACHO_OUTPUT then
        (let u32_ticks_now = counter in
           s\<lparr>g_u32_time_diff := u32_ticks_now - g_u32_ticks_last s,
             g_u32_ticks_last := u32_ticks_now,
             g_u32_cpu_ticks_now := tick\<rparr>)
      else s)"

section \<open>Speed conversion and filtered read: \<open>fan_get_filtered_rpm\<close>\<close>

text \<open>
  The expression \<open>(60u * 1000000ul) / (2u * g_u32_time_diff)\<close>. Every operand is an
  unsigned 32-bit value, so the product \<open>2u * g_u32_time_diff\<close> wraps modulo \<open>2 ^ 32\<close>
  before it divides.
\<close>

definition u32_rpm :: "u32 \<Rightarrow> fault + u32" where
  "u32_rpm time_diff =
     (if 2 * time_diff = 0 then Inl DivisionByZero
      else Inr ((60 * 1000000) div (2 * time_diff)))"

text \<open>
  \<open>median_get_median\<close> belongs to the median module: it takes that module's state and
  the new sample, and returns the filtered value and the module's new state. \<open>tick\<close> is
  the value of \<open>HAL_GetTick()\<close> at the call.
\<close>

definition fan_get_filtered_rpm ::
  "('f \<Rightarrow> u32 \<Rightarrow> u32 \<times> 'f) \<Rightarrow> u32 \<Rightarrow> 'f fan_state \<Rightarrow> fault + (u32 \<times> 'f fan_state)" where
  "fan_get_filtered_rpm median_get_median tick s =
     (if tick - g_u32_cpu_ticks_now s > 1000 then Inr (0, s)
      else if g_u32_time_diff s = 0 then Inr (0, s)
      else (case u32_rpm (g_u32_time_diff s) of
              Inl e \<Rightarrow> Inl e
            | Inr rpm \<Rightarrow>
                (let (m, f) = median_get_median (median s) rpm
                 in Inr (m, s\<lparr>median := f\<rparr>))))"

definition fan_change_target_rpm :: "u32 \<Rightarrow> 'f fan_state \<Rightarrow> 'f fan_state" where
  "fan_change_target_rpm target_rpm s = s\<lparr>g_u32_target_rpm := target_rpm\<rparr>"

definition fan_get_target_rpm :: "'f fan_state \<Rightarrow> u32" where
  "fan_get_target_rpm s = g_u32_target_rpm s"

section \<open>The PI controller: \<open>fan_update_pi_controller\<close>\<close>

definition f_error :: "u32 \<Rightarrow> u32 \<Rightarrow> f32" where
  "f_error target_rpm filtered_rpm = fsub (u32_to_f32 target_rpm) (u32_to_f32 filtered_rpm)"

text \<open>The output before the limits are applied: \<open>g_f_kp * f_error + g_f_ki * f_esum\<close>.\<close>

definition f_output_raw :: "u32 \<Rightarrow> u32 \<Rightarrow> f32 \<Rightarrow> f32" where
  "f_output_raw target_rpm filtered_rpm esum =
     fadd (fmul g_f_kp (f_error target_rpm filtered_rpm)) (fmul g_f_ki esum)"

text \<open>
  The limits and the conditional integration: the pair of the final \<open>f_output\<close> and the
  new \<open>f_esum\<close>.
\<close>

definition pi_step :: "u32 \<Rightarrow> u32 \<Rightarrow> f32 \<Rightarrow> f32 \<times> f32" where
  "pi_step target_rpm filtered_rpm esum =
     (let f_output = f_output_raw target_rpm filtered_rpm esum
      in if fgt f_output (Fin False 100) then (Fin False 100, esum)
         else if flt f_output (Fin False 0) then (Fin False 0, esum)
         else (f_output, fadd esum (fmul (f_error target_rpm filtered_rpm) g_f_ta)))"

text \<open>
  The value that \<open>__HAL_TIM_SET_COMPARE\<close> stores: \<open>(Init.Period + 1u) * f_output / 100.0f\<close>,
  converted to the register's unsigned 32-bit type by the assignment.
\<close>

definition compare_of :: "u32 \<Rightarrow> f32 \<Rightarrow> fault + u32" where
  "compare_of period f_output =
     f32_to_u32 (fdiv (fmul (u32_to_f32 (period + 1)) f_output) (Fin False 100))"

definition fan_update_pi_controller ::
  "('f \<Rightarrow> u32 \<Rightarrow> u32 \<times> 'f) \<Rightarrow> u32 \<Rightarrow> 'f fan_state \<Rightarrow> fault + 'f fan_state" where
  "fan_update_pi_controller median_get_median tick s =
     (case fan_get_filtered_rpm median_get_median tick s of
        Inl e \<Rightarrow> Inl e
      | Inr (filtered_rpm, s1) \<Rightarrow>
          (let (f_output, esum) = pi_step (g_u32_target_rpm s1) filtered_rpm (f_esum s1)
           in case compare_of (tim9_period s1) f_output of
                Inl e \<Rightarrow> Inl e
              | Inr c \<Rightarrow> Inr (s1\<lparr>f_esum := esum, tim9_ccr1 := c\<rparr>)))"

section \<open>The states the module reaches\<close>

text \<open>
  From the static initialisers and \<open>fan_control_init\<close>, by tachometer edges, changes of
  the target, filtered reads and controller cycles, in any order and at any times.
\<close>

inductive reachable :: "('f \<Rightarrow> u32 \<Rightarrow> u32 \<times> 'f) \<Rightarrow> 'f \<Rightarrow> 'f fan_state \<Rightarrow> bool"
  for median_get_median :: "'f \<Rightarrow> u32 \<Rightarrow> u32 \<times> 'f" and f0 :: 'f where
  reach_init: "reachable median_get_median f0 (fan_control_init (fan_static_init f0))"
| reach_edge: "reachable median_get_median f0 s \<Longrightarrow>
     reachable median_get_median f0 (HAL_GPIO_EXTI_Callback gpio_pin counter tick s)"
| reach_target: "reachable median_get_median f0 s \<Longrightarrow>
     reachable median_get_median f0 (fan_change_target_rpm target_rpm s)"
| reach_read: "reachable median_get_median f0 s \<Longrightarrow>
     fan_get_filtered_rpm median_get_median tick s = Inr (rpm, s') \<Longrightarrow>
     reachable median_get_median f0 s'"
| reach_update: "reachable median_get_median f0 s \<Longrightarrow>
     fan_update_pi_controller median_get_median tick s = Inr s' \<Longrightarrow>
     reachable median_get_median f0 s'"

section \<open>The median filter\<close>

text \<open>
  Modelled from the spec: the median module (\<open>median/median.h\<close> and its implementation),
  which \<open>fan.c\<close> includes and calls through \<open>median_get_median\<close>, is not among the
  sources. The specification describes a window of fixed capacity \<open>N\<close>, a circular buffer
  with a write cursor, in which an insertion overwrites the oldest entry once the buffer
  is full, and whose median is the middle value of the current contents sorted by value,
  taken over however many samples exist before the buffer first fills. The count of the
  samples held so far is part of the window; an empty window reads as 0.
\<close>

record median_window =
  buffer :: "u32 list"
  cursor :: nat
  count :: nat

definition median_init :: "nat \<Rightarrow> median_window" where
  "median_init N = \<lparr>buffer = replicate N 0, cursor = 0, count = 0\<rparr>"

definition median_insert :: "median_window \<Rightarrow> u32 \<Rightarrow> median_window" where
  "median_insert w sample =
     \<lparr>buffer = (buffer w)[cursor w := sample],
      cursor = (cursor w + 1) mod length (buffer w),
      count = min (length (buffer w)) (count w + 1)\<rparr>"

definition median_contents :: "median_window \<Rightarrow> u32 list" where
  "median_contents w = take (count w) (buffer w)"

definition median_median :: "median_window \<Rightarrow> u32" where
  "median_median w =
     (let sorted_values = sort (median_contents w)
      in if sorted_values = [] then 0
         else sorted_values ! (length sorted_values div 2))"

text \<open>
  Modelled from the spec: the call \<open>median_get_median(u32_rpm)\<close> of \<open>fan.c\<close> hands the
  new sample to the filter and receives the filtered value: the insertion followed by
  the read of the median.
\<close>

definition median_get_median :: "median_window \<Rightarrow> u32 \<Rightarrow> u32 \<times> median_window" where
  "median_get_median w sample =
     (let w' = median_insert w sample in (median_median w', w'))"

section \<open>Example states\<close>

text \<open>
  States in which the last captured period is 6000 ticks, no time has passed since the
  edge, and the window of size 3 is full with the given samples and cursor.
\<close>

definition read_state :: "u32 list \<Rightarrow> nat \<Rightarrow> median_window fan_state" where
  "read_state samples c =
     \<lparr>g_u32_ticks_last = 0, g_u32_time_diff = 6000, g_u32_cpu_ticks_now = 0,
      g_u32_target_rpm = 0, f_esum = Fin False 0, tim9_period = 399, tim9_ccr1 = 200,
      median = \<lparr>buffer = samples, cursor = c, count = 3\<rparr>\<rparr>"

text \<open>
  The state after initialisation with a target set, a median module that passes the
  sample through, and no pulse captured yet.
\<close>

definition pass_through :: "unit \<Rightarrow> u32 \<Rightarrow> u32 \<times> unit" where
  "pass_through f sample = (sample, f)"

definition idle_state :: "u32 \<Rightarrow> unit fan_state" where
  "idle_state target_rpm =
     fan_change_target_rpm target_rpm (fan_control_init (fan_static_init ()))"

section \<open>Properties of the pulse capture\<close>

text \<open>
  C8. On a tachometer edge the stored period is the current counter value minus the
  previous one in unsigned 32-bit arithmetic: its value is the difference of the two
  readings modulo \<open>2 ^ 32\<close>, a number from 0 up to \<open>2 ^ 32 - 1\<close> also when the counter
  has rolled over in between, and adding it to the previous reading gives the current
  one again. The current reading becomes the previous one.
\<close>

theorem exti_callback_wrapped_period:
  "g_u32_time_diff (HAL_GPIO_EXTI_Callback FAN_TACHO_OUTPUT counter tick s)
     = counter - g_u32_ticks_last s
   \<and> int (unat (g_u32_time_diff (HAL_GPIO_EXTI_Callback FAN_TACHO_OUTPUT counter tick s)))
     = (int (unat counter) - int (unat (g_u32_ticks_last s))) mod 2 ^ 32
   \<and> 0 \<le> int (unat (g_u32_time_diff (HAL_GPIO_EXTI_Callback FAN_TACHO_OUTPUT counter tick s)))
   \<and> unat (g_u32_time_diff (HAL_GPIO_EXTI_Callback FAN_TACHO_OUTPUT counter tick s)) < 2 ^ 32
   \<and> g_u32_ticks_last s
       + g_u32_time_diff (HAL_GPIO_EXTI_Callback FAN_TACHO_OUTPUT counter tick s) = counter
   \<and> g_u32_ticks_last (HAL_GPIO_EXTI_Callback FAN_TACHO_OUTPUT counter tick s) = counter
   \<and> g_u32_cpu_ticks_now (HAL_GPIO_EXTI_Callback FAN_TACHO_OUTPUT counter tick s) = tick"
proof -
  have "unat (counter - g_u32_ticks_last s) < 2 ^ 32"
    using unsigned_less [of "counter - g_u32_ticks_last s", where ?'a = nat] by simp
  then show ?thesis
    by (simp add: HAL_GPIO_EXTI_Callback_def Let_def uint_word_ariths)
qed

section \<open>Properties of the speed conversion\<close>

lemma two_times_small:
  assumes "unat (p::u32) < 2 ^ 31"
  shows "unat (2 * p) = 2 * unat p"
  using assms by (simp add: unat_word_ariths)

lemma u32_rpm_in_range:
  assumes "0 < p" and "unat p < 2 ^ 31"
  shows "\<exists>r. u32_rpm p = Inr r \<and> unat r = 60000000 div (2 * unat p)"
proof -
  have n: "unat (2 * p) = 2 * unat p" using assms(2) by (rule two_times_small)
  have "unat p \<noteq> 0" using assms(1) by (simp add: unat_eq_0 word_neq_0_conv)
  then have "unat (2 * p) \<noteq> 0" using n by simp
  then have nz: "2 * p \<noteq> 0" by (auto simp: unat_eq_0)
  have "unat ((60 * 1000000) div (2 * p)) = 60000000 div (2 * unat p)"
    by (simp add: unat_div n)
  then show ?thesis using nz by (simp add: u32_rpm_def)
qed

lemma div_twice_cases:
  fixes a n :: nat
  shows "a div n = 2 * (a div (2 * n)) \<or> a div n = 2 * (a div (2 * n)) + 1"
proof -
  define q where "q = a div n"
  have h: "a div (2 * n) = q div 2"
    by (simp add: q_def div_mult2_eq mult.commute)
  have "q = 2 * (q div 2) \<or> q = 2 * (q div 2) + 1" by presburger
  then show ?thesis unfolding h unfolding q_def .
qed

lemma div_twice_exact:
  fixes a n :: nat
  assumes "0 < n" and "(2 * n) dvd a"
  shows "a div n = 2 * (a div (2 * n))"
proof -
  obtain k where k: "a = (2 * n) * k" using assms(2) unfolding dvd_def by blast
  have "a div (2 * n) = k" unfolding k using assms(1) by simp
  moreover have "a div n = 2 * k"
  proof -
    have "a = n * (2 * k)" unfolding k by simp
    then show ?thesis using assms(1) by simp
  qed
  ultimately show ?thesis by simp
qed

text \<open>
  C3, at the input where the code leaves the formula. A captured period of
  \<open>2 ^ 31 + 1\<close> ticks is positive, and \<open>60000000 / (2 * p)\<close> is 0 for it; the code's
  divisor \<open>2u * g_u32_time_diff\<close> wraps to 2, and the speed it computes is 30000000. The
  first edge after initialisation, at the counter value \<open>2 ^ 31 + 1\<close>, stores that
  period, and a read 500 ms later hands 30000000 to the median filter. For a period of
  6000 ticks the code computes 5000.
\<close>

theorem rpm_divisor_wraps:
  "u32_rpm 0x80000001 = Inr 30000000
   \<and> 60000000 div (2 * unat (0x80000001 :: u32)) = 0
   \<and> g_u32_time_diff
        (HAL_GPIO_EXTI_Callback FAN_TACHO_OUTPUT 0x80000001 0 (fan_control_init (fan_static_init f)))
       = 0x80000001
   \<and> fan_get_filtered_rpm mgm 500
        (HAL_GPIO_EXTI_Callback FAN_TACHO_OUTPUT 0x80000001 0 (fan_control_init (fan_static_init f)))
       = Inr (fst (mgm f 30000000),
              (HAL_GPIO_EXTI_Callback FAN_TACHO_OUTPUT 0x80000001 0
                 (fan_control_init (fan_static_init f)))\<lparr>median := snd (mgm f 30000000)\<rparr>)
   \<and> u32_rpm 6000 = Inr 5000"
  by (simp add: u32_rpm_def fan_get_filtered_rpm_def HAL_GPIO_EXTI_Callback_def
      fan_control_init_def fan_timer_init_def fan_static_init_def Let_def split: prod.splits)

text \<open>
  C4, at the input where the guard fails. A period of \<open>2 ^ 31\<close> ticks is not zero, so
  the check of \<open>g_u32_time_diff\<close> lets it pass; the divisor \<open>2u * g_u32_time_diff\<close> wraps
  to zero. The first edge after initialisation, at the counter value \<open>2 ^ 31\<close>, stores
  that period, and a read or a controller cycle 500 ms later divides by zero.
\<close>

theorem rpm_division_by_zero:
  "g_u32_time_diff
     (HAL_GPIO_EXTI_Callback FAN_TACHO_OUTPUT 0x80000000 0 (fan_control_init (fan_static_init f)))
    = 0x80000000
   \<and> fan_get_filtered_rpm mgm 500
     (HAL_GPIO_EXTI_Callback FAN_TACHO_OUTPUT 0x80000000 0 (fan_control_init (fan_static_init f)))
    = Inl DivisionByZero
   \<and> fan_update_pi_controller mgm 500
     (HAL_GPIO_EXTI_Callback FAN_TACHO_OUTPUT 0x80000000 0 (fan_control_init (fan_static_init f)))
    = Inl DivisionByZero"
  by (simp add: fan_update_pi_controller_def fan_get_filtered_rpm_def u32_rpm_def
      HAL_GPIO_EXTI_Callback_def fan_control_init_def fan_timer_init_def fan_static_init_def
      Let_def)

text \<open>
  C7 as stated fails on the integer division: for the even period 18 the code computes
  1666666, and for the period 9 it computes 3333333, which is not twice 1666666.
\<close>

theorem halving_not_exactly_double:
  "u32_rpm 18 = Inr 1666666 \<and> u32_rpm (18 div 2) = Inr 3333333
   \<and> (3333333 :: u32) \<noteq> 2 * 1666666"
  by (simp add: u32_rpm_def)

text \<open>
  C7, amended. For every even period \<open>p\<close> with \<open>0 < p < 2 ^ 31\<close> the speeds computed for
  \<open>p\<close> and for \<open>p / 2\<close> are the truncated quotients \<open>60000000 / (2 * p)\<close> and
  \<open>60000000 / p\<close>; the second is twice the first or twice the first plus one, and exactly
  twice the first when \<open>2 * p\<close> divides 60000000. A stored period of 0 makes the read
  return 0 without a division.
\<close>

theorem halving_period_doubles_rpm:
  assumes "even (unat p)" and "0 < p" and "unat p < 2 ^ 31"
  shows "\<exists>r h. u32_rpm p = Inr r \<and> u32_rpm (p div 2) = Inr h
           \<and> unat r = 60000000 div (2 * unat p)
           \<and> unat h = 60000000 div unat p
           \<and> (unat h = 2 * unat r \<or> unat h = 2 * unat r + 1)
           \<and> ((2 * unat p) dvd 60000000 \<longrightarrow> unat h = 2 * unat r)
           \<and> (\<forall>mgm tick s. g_u32_time_diff s = 0 \<longrightarrow>
                 fan_get_filtered_rpm mgm tick (s :: 'f fan_state) = Inr (0, s))"
proof -
  obtain r where r: "u32_rpm p = Inr r" "unat r = 60000000 div (2 * unat p)"
    using u32_rpm_in_range [OF assms(2,3)] by blast
  have pn: "0 < unat p" using assms(2) by (simp add: word_less_nat_alt)
  have hd: "unat (p div 2) = unat p div 2" by (simp add: unat_div)
  have hpos: "0 < p div 2"
    using pn assms(1) hd by (auto simp: word_less_nat_alt elim!: evenE)
  have hlt: "unat (p div 2) < 2 ^ 31" using assms(3) hd by simp
  obtain h where h: "u32_rpm (p div 2) = Inr h" "unat h = 60000000 div (2 * unat (p div 2))"
    using u32_rpm_in_range [OF hpos hlt] by blast
  have twice: "2 * unat (p div 2) = unat p"
    using assms(1) hd by (auto elim!: evenE)
  have hval: "unat h = 60000000 div unat p" using h(2) twice by simp
  have cases: "unat h = 2 * unat r \<or> unat h = 2 * unat r + 1"
    using div_twice_cases [of 60000000 "unat p"] hval r(2) by simp
  have exact: "(2 * unat p) dvd 60000000 \<longrightarrow> unat h = 2 * unat r"
    using div_twice_exact [OF pn, of 60000000] hval r(2) by simp
  have zero: "\<forall>mgm tick s. g_u32_time_diff s = 0 \<longrightarrow>
      fan_get_filtered_rpm mgm tick (s :: 'f fan_state) = Inr (0, s)"
    by (simp add: fan_get_filtered_rpm_def)
  show ?thesis using r h hval cases exact zero by blast
qed

theorem halving_period_doubles_rpm_witness:
  "even (unat (6000 :: u32)) \<and> (0 :: u32) < 6000 \<and> unat (6000 :: u32) < 2 ^ 31
   \<and> u32_rpm 6000 = Inr 5000 \<and> u32_rpm (6000 div 2) = Inr 10000
   \<and> (\<exists>r h. u32_rpm 6000 = Inr r \<and> u32_rpm (6000 div 2) = Inr h \<and> unat h = 2 * unat r)"
proof -
  have h1: "even (unat (6000 :: u32))" by simp
  have h2: "(0 :: u32) < 6000" by simp
  have h3: "unat (6000 :: u32) < 2 ^ 31" by simp
  have d: "(2 * unat (6000 :: u32)) dvd 60000000" by simp
  from halving_period_doubles_rpm [OF h1 h2 h3, where ?'f = unit] d
  have "\<exists>r h. u32_rpm 6000 = Inr r \<and> u32_rpm (6000 div 2) = Inr h \<and> unat h = 2 * unat r"
    by blast
  moreover have "u32_rpm 6000 = Inr 5000 \<and> u32_rpm (6000 div 2) = Inr 10000"
    by (simp add: u32_rpm_def)
  ultimately show ?thesis using h1 h2 h3 by blast
qed

section \<open>Properties of the filtered read\<close>

text \<open>
  C10. When more than 1000 ms have passed since the last pulse, or the stored period is
  0, \<open>fan_get_filtered_rpm\<close> returns 0 and the whole state, the median module's
  included, is what it was: \<open>median_get_median\<close> is not called. Otherwise the call
  either faults in the division or hands the converted speed to \<open>median_get_median\<close>
  (here any function \<open>mgm\<close> of the median module's state and the sample),
  returns its value and stores its state; nothing else changes.
\<close>

theorem stale_read_leaves_filter:
  "(tick - g_u32_cpu_ticks_now s > 1000 \<or> g_u32_time_diff s = 0 \<longrightarrow>
      fan_get_filtered_rpm mgm tick s = Inr (0, s))
   \<and> (\<not> tick - g_u32_cpu_ticks_now s > 1000 \<and> g_u32_time_diff s \<noteq> 0 \<longrightarrow>
      fan_get_filtered_rpm mgm tick s =
        (case u32_rpm (g_u32_time_diff s) of
           Inl e \<Rightarrow> Inl e
         | Inr rpm \<Rightarrow> Inr (fst (mgm (median s) rpm),
                         s\<lparr>median := snd (mgm (median s) rpm)\<rparr>)))"
  by (auto simp: fan_get_filtered_rpm_def split: sum.splits prod.splits)

theorem stale_read_leaves_filter_witness:
  "fan_get_filtered_rpm (\<lambda>f x. (x, Suc f)) 5000
     \<lparr>g_u32_ticks_last = 0, g_u32_time_diff = 6000, g_u32_cpu_ticks_now = 0,
      g_u32_target_rpm = 0, f_esum = Fin False 0, tim9_period = 399, tim9_ccr1 = 200,
      median = 0\<rparr>
   = Inr (0, \<lparr>g_u32_ticks_last = 0, g_u32_time_diff = 6000, g_u32_cpu_ticks_now = 0,
      g_u32_target_rpm = 0, f_esum = Fin False 0, tim9_period = 399, tim9_ccr1 = 200,
      median = 0\<rparr>)
   \<and> fan_get_filtered_rpm (\<lambda>f x. (x, Suc f)) 500
     \<lparr>g_u32_ticks_last = 0, g_u32_time_diff = 6000, g_u32_cpu_ticks_now = 0,
      g_u32_target_rpm = 0, f_esum = Fin False 0, tim9_period = 399, tim9_ccr1 = 200,
      median = 0\<rparr>
   = Inr (5000, \<lparr>g_u32_ticks_last = 0, g_u32_time_diff = 6000, g_u32_cpu_ticks_now = 0,
      g_u32_target_rpm = 0, f_esum = Fin False 0, tim9_period = 399, tim9_ccr1 = 200,
      median = Suc 0\<rparr>)"
proof -
  let ?s = "\<lparr>g_u32_ticks_last = 0, g_u32_time_diff = 6000, g_u32_cpu_ticks_now = 0,
      g_u32_target_rpm = 0, f_esum = Fin False 0, tim9_period = 399, tim9_ccr1 = 200,
      median = 0 :: nat\<rparr>"
  have stale: "(5000 :: u32) - g_u32_cpu_ticks_now ?s > 1000 \<or> g_u32_time_diff ?s = 0"
    by simp
  have fresh: "\<not> (500 :: u32) - g_u32_cpu_ticks_now ?s > 1000 \<and> g_u32_time_diff ?s \<noteq> 0"
    by simp
  have rpm: "u32_rpm (g_u32_time_diff ?s) = Inr 5000" by (simp add: u32_rpm_def)
  from stale_read_leaves_filter [where tick = 5000 and s = ?s and mgm = "\<lambda>f x. (x, Suc f)"] stale
  have a: "fan_get_filtered_rpm (\<lambda>f x. (x, Suc f)) 5000 ?s = Inr (0, ?s)" by blast
  from stale_read_leaves_filter [where tick = 500 and s = ?s and mgm = "\<lambda>f x. (x, Suc f)"] fresh
  have "fan_get_filtered_rpm (\<lambda>f x. (x, Suc f)) 500 ?s =
        (case u32_rpm (g_u32_time_diff ?s) of
           Inl e \<Rightarrow> Inl e
         | Inr rpm \<Rightarrow> Inr (fst ((\<lambda>f x. (x, Suc f)) (median ?s) rpm),
                         ?s\<lparr>median := snd ((\<lambda>f x. (x, Suc f)) (median ?s) rpm)\<rparr>))"
    by blast
  then have b: "fan_get_filtered_rpm (\<lambda>f x. (x, Suc f)) 500 ?s = Inr (5000, ?s\<lparr>median := Suc 0\<rparr>)"
    unfolding rpm by simp
  show ?thesis using a b by simp
qed

section \<open>Properties of the median filter\<close>

lemma sorted_nth_below:
  fixes ys :: "'a::linorder list"
  assumes "sorted ys" and "k < length ys"
  shows "length (filter (\<lambda>y. y < ys ! k) ys) \<le> k"
proof -
  have "\<forall>y \<in> set (drop k ys). \<not> y < ys ! k"
  proof
    fix y assume "y \<in> set (drop k ys)"
    then obtain i where i: "i < length (drop k ys)" "y = drop k ys ! i"
      by (auto simp: in_set_conv_nth)
    then have "y = ys ! (k + i)" using assms(2) by simp
    moreover have "ys ! k \<le> ys ! (k + i)"
      using assms(1) i(1) by (auto intro!: sorted_nth_mono)
    ultimately show "\<not> y < ys ! k" by simp
  qed
  then have e: "filter (\<lambda>y. y < ys ! k) (drop k ys) = []" by (simp add: filter_empty_conv)
  have "filter (\<lambda>y. y < ys ! k) ys
          = filter (\<lambda>y. y < ys ! k) (take k ys) @ filter (\<lambda>y. y < ys ! k) (drop k ys)"
    by (metis append_take_drop_id filter_append)
  then have "length (filter (\<lambda>y. y < ys ! k) ys) = length (filter (\<lambda>y. y < ys ! k) (take k ys))"
    using e by simp
  also have "\<dots> \<le> length (take k ys)" by (rule length_filter_le)
  also have "\<dots> \<le> k" by simp
  finally show ?thesis .
qed

lemma sorted_nth_above:
  fixes ys :: "'a::linorder list"
  assumes "sorted ys" and "k < length ys"
  shows "length (filter (\<lambda>y. ys ! k < y) ys) \<le> length ys - Suc k"
proof -
  have "\<forall>y \<in> set (take (Suc k) ys). \<not> ys ! k < y"
  proof
    fix y assume "y \<in> set (take (Suc k) ys)"
    then obtain i where i: "i < length (take (Suc k) ys)" "y = take (Suc k) ys ! i"
      by (auto simp: in_set_conv_nth)
    then have "i \<le> k" "y = ys ! i" by auto
    then have "y \<le> ys ! k"
      using assms by (auto intro!: sorted_nth_mono)
    then show "\<not> ys ! k < y" by simp
  qed
  then have e: "filter (\<lambda>y. ys ! k < y) (take (Suc k) ys) = []" by (simp add: filter_empty_conv)
  have "filter (\<lambda>y. ys ! k < y) ys
          = filter (\<lambda>y. ys ! k < y) (take (Suc k) ys) @ filter (\<lambda>y. ys ! k < y) (drop (Suc k) ys)"
    by (metis append_take_drop_id filter_append)
  then have "length (filter (\<lambda>y. ys ! k < y) ys)
               = length (filter (\<lambda>y. ys ! k < y) (drop (Suc k) ys))"
    using e by simp
  also have "\<dots> \<le> length (drop (Suc k) ys)" by (rule length_filter_le)
  also have "\<dots> = length ys - Suc k" by simp
  finally show ?thesis .
qed

lemma length_filter_sort:
  fixes xs :: "'a::linorder list"
  shows "length (filter P (sort xs)) = length (filter P xs)"
proof -
  have "mset (filter P (sort xs)) = mset (filter P xs)" by (simp add: mset_filter)
  then show ?thesis by (metis size_mset)
qed

text \<open>
  The middle element of the sorted values is a median in the statistical sense: it is one
  of the values, at most half of the values are smaller and at most half are greater.
\<close>

lemma middle_of_sorted_is_median:
  fixes xs :: "'a::linorder list"
  assumes "xs \<noteq> []"
  shows "sort xs ! (length xs div 2) \<in> set xs"
    and "length (filter (\<lambda>x. x < sort xs ! (length xs div 2)) xs) \<le> length xs div 2"
    and "length (filter (\<lambda>x. sort xs ! (length xs div 2) < x) xs) \<le> (length xs - 1) div 2"
proof -
  let ?k = "length xs div 2"
  have k: "?k < length (sort xs)" using assms by (cases xs) auto
  have "sort xs ! ?k \<in> set (sort xs)" using k by (rule nth_mem)
  then show "sort xs ! ?k \<in> set xs" by simp
  have "length (filter (\<lambda>x. x < sort xs ! ?k) (sort xs)) \<le> ?k"
    using sorted_nth_below [OF sorted_sort k] .
  then show "length (filter (\<lambda>x. x < sort xs ! ?k) xs) \<le> ?k"
    by (simp only: length_filter_sort)
  have "length (filter (\<lambda>x. sort xs ! ?k < x) (sort xs)) \<le> length (sort xs) - Suc ?k"
    using sorted_nth_above [OF sorted_sort k] .
  then have "length (filter (\<lambda>x. sort xs ! ?k < x) xs) \<le> length xs - Suc ?k"
    by (simp only: length_filter_sort length_sort)
  also have "\<dots> \<le> (length xs - 1) div 2" by presburger
  finally show "length (filter (\<lambda>x. sort xs ! ?k < x) xs) \<le> (length xs - 1) div 2" .
qed

text \<open>Up to \<open>N\<close> insertions into a fresh window fill the buffer from the front.\<close>

lemma inserts_prefix:
  assumes "length xs \<le> N"
  shows "foldl median_insert (median_init N) xs =
           \<lparr>buffer = xs @ replicate (N - length xs) 0,
            cursor = length xs mod N,
            count = length xs\<rparr>"
  using assms
proof (induction xs rule: rev_induct)
  case Nil
  then show ?case by (simp add: median_init_def)
next
  case (snoc x xs)
  then have len: "length xs < N" by simp
  from len obtain k where k: "N - length xs = Suc k" by (cases "N - length xs") auto
  then have k': "N - length (xs @ [x]) = k" by simp
  have upd: "(xs @ replicate (N - length xs) 0)[length xs := x]
          = (xs @ [x]) @ replicate (N - length (xs @ [x])) 0"
    unfolding k' unfolding k by (simp add: list_update_append)
  have ih: "foldl median_insert (median_init N) xs =
           \<lparr>buffer = xs @ replicate (N - length xs) 0,
            cursor = length xs mod N, count = length xs\<rparr>"
    using snoc by simp
  have "foldl median_insert (median_init N) (xs @ [x])
          = median_insert (foldl median_insert (median_init N) xs) x"
    by simp
  also have "\<dots> = \<lparr>buffer = (xs @ replicate (N - length xs) 0)[length xs := x],
                    cursor = (length xs + 1) mod N,
                    count = length xs + 1\<rparr>"
    unfolding ih using len by (simp add: median_insert_def)
  finally show ?case unfolding upd by simp
qed

lemma mod_shift_neq:
  fixes c i k N :: nat
  assumes "i < k" and "k < N"
  shows "(c + i) mod N \<noteq> (c + k) mod N"
proof
  assume "(c + i) mod N = (c + k) mod N"
  then have "(c + k) mod N = (c + i) mod N" by simp
  moreover have "c + i \<le> c + k" using assms(1) by simp
  ultimately have "N dvd (c + k) - (c + i)" by (simp add: mod_eq_dvd_iff_nat)
  then have "N dvd k - i" by simp
  moreover have "0 < k - i" "k - i < N" using assms by simp_all
  ultimately show False by (auto dest: dvd_imp_le)
qed

text \<open>Up to \<open>N\<close> insertions into any window of size \<open>N\<close> go to consecutive places of the circle.\<close>

lemma inserts_circular:
  assumes "length (buffer w) = N" and "cursor w < N" and "length ys \<le> N"
  shows "length (buffer (foldl median_insert w ys)) = N
       \<and> cursor (foldl median_insert w ys) = (cursor w + length ys) mod N
       \<and> count (foldl median_insert w ys)
           = (if ys = [] then count w else min N (count w + length ys))
       \<and> (\<forall>i < length ys. buffer (foldl median_insert w ys) ! ((cursor w + i) mod N) = ys ! i)"
  using assms(3)
proof (induction ys rule: rev_induct)
  case Nil
  then show ?case using assms(1,2) by simp
next
  case (snoc x ys)
  let ?w = "foldl median_insert w ys"
  have len: "length ys < N" using snoc.prems by simp
  have ih: "length (buffer ?w) = N" "cursor ?w = (cursor w + length ys) mod N"
      "count ?w = (if ys = [] then count w else min N (count w + length ys))"
      "\<forall>i < length ys. buffer ?w ! ((cursor w + i) mod N) = ys ! i"
    using snoc.IH len by simp_all
  have step: "foldl median_insert w (ys @ [x]) = median_insert ?w x" by simp
  have N: "0 < N" using len by simp
  have cur: "cursor ?w < N" unfolding ih(2) using N by simp
  have b: "buffer (median_insert ?w x) = (buffer ?w)[cursor ?w := x]"
    by (simp add: median_insert_def)
  have "\<forall>i < length (ys @ [x]).
          buffer (median_insert ?w x) ! ((cursor w + i) mod N) = (ys @ [x]) ! i"
  proof (intro allI impI)
    fix i assume "i < length (ys @ [x])"
    then consider "i < length ys" | "i = length ys" by fastforce
    then show "buffer (median_insert ?w x) ! ((cursor w + i) mod N) = (ys @ [x]) ! i"
    proof cases
      case 1
      then have "(cursor w + i) mod N \<noteq> cursor ?w"
        unfolding ih(2) using len by (rule mod_shift_neq)
      then have "buffer (median_insert ?w x) ! ((cursor w + i) mod N)
                   = buffer ?w ! ((cursor w + i) mod N)"
        unfolding b by simp
      then show ?thesis using ih(4) 1 by (simp add: nth_append)
    next
      case 2
      then have "(cursor w + i) mod N = cursor ?w" by (simp add: ih(2))
      then show ?thesis unfolding b using cur ih(1) 2 by simp
    qed
  qed
  moreover have "length (buffer (median_insert ?w x)) = N" unfolding b using ih(1) by simp
  moreover have "cursor (median_insert ?w x) = (cursor w + length (ys @ [x])) mod N"
    using ih(1,2) by (simp add: median_insert_def mod_Suc_eq)
  moreover have "count (median_insert ?w x)
      = (if ys @ [x] = [] then count w else min N (count w + length (ys @ [x])))"
    using ih(1,3) by (auto simp: median_insert_def min_def)
  ultimately show ?case unfolding step by blast
qed

text \<open>After exactly \<open>N\<close> insertions the window holds the inserted values, rotated.\<close>

lemma inserts_full:
  assumes "length (buffer w) = length xs" and "cursor w < length xs"
  shows "buffer (foldl median_insert w xs)
           = drop (length xs - cursor w) xs @ take (length xs - cursor w) xs"
    and "count (foldl median_insert w xs) = length xs"
proof -
  let ?N = "length xs" and ?c = "cursor w" and ?w = "foldl median_insert w xs"
  note inv = inserts_circular [OF assms order_refl]
  have l: "length (buffer ?w) = ?N" using inv by blast
  have at: "\<And>i. i < ?N \<Longrightarrow> buffer ?w ! ((?c + i) mod ?N) = xs ! i" using inv by blast
  have "xs \<noteq> []" using assms(2) by auto
  then show "count ?w = ?N" using inv by simp
  show "buffer ?w = drop (?N - ?c) xs @ take (?N - ?c) xs"
  proof (rule nth_equalityI)
    show "length (buffer ?w) = length (drop (?N - ?c) xs @ take (?N - ?c) xs)"
      using l assms(2) by simp
  next
    fix j assume "j < length (buffer ?w)"
    then have j: "j < ?N" using l by simp
    show "buffer ?w ! j = (drop (?N - ?c) xs @ take (?N - ?c) xs) ! j"
    proof (cases "j < ?c")
      case True
      have i: "?N - ?c + j < ?N" using True assms(2) by simp
      have "(?c + (?N - ?c + j)) mod ?N = (?N + j) mod ?N" using assms(2) by simp
      also have "\<dots> = j" using j by simp
      finally have "buffer ?w ! j = xs ! (?N - ?c + j)" using at [OF i] by simp
      then show ?thesis using True assms(2) by (simp add: nth_append)
    next
      case False
      have i: "j - ?c < ?N" using j by simp
      have "(?c + (j - ?c)) mod ?N = j" using False j by simp
      then have "buffer ?w ! j = xs ! (j - ?c)" using at [OF i] by simp
      then show ?thesis using False assms(2) j by (simp add: nth_append)
    qed
  qed
qed

lemma sort_rotated:
  fixes xs :: "'a::linorder list"
  shows "sort (drop n xs @ take n xs) = sort xs"
proof -
  have "mset (take n xs) + mset (drop n xs) = mset xs" by (simp flip: mset_append)
  then have "mset (drop n xs @ take n xs) = mset xs" by (simp add: add.commute)
  then show ?thesis by (metis properties_for_sort sorted_sort mset_sort)
qed

lemma median_of_full_window:
  assumes "length (buffer w) = length xs" and "cursor w < length xs"
  shows "median_median (foldl median_insert w xs) = sort xs ! (length xs div 2)"
proof -
  have ne: "xs \<noteq> []" using assms(2) by auto
  then have sne: "sort xs \<noteq> []" by (metis length_0_conv length_sort)
  have "median_contents (foldl median_insert w xs)
          = drop (length xs - cursor w) xs @ take (length xs - cursor w) xs"
    unfolding median_contents_def inserts_full [OF assms] using assms(2) by simp
  then show ?thesis using sne by (simp add: median_median_def sort_rotated Let_def)
qed

text \<open>
  C5. For a window of any size \<open>N\<close>: after any sequence of at least one and at most \<open>N\<close>
  values inserted into the fresh window, and after any sequence of exactly \<open>N\<close> values
  inserted into a window in any state (its buffer of length \<open>N\<close>, its cursor inside the
  buffer), the median the filter returns is the middle element of the inserted values
  sorted by value. That element is a statistical median of the sequence: one of its
  values, with at most half of the values smaller and at most half of them greater.
\<close>

theorem median_after_inserts:
  "(xs \<noteq> [] \<and> length xs \<le> N \<longrightarrow>
      median_median (foldl median_insert (median_init N) xs) = sort xs ! (length xs div 2))
   \<and> (length (buffer w) = length xs \<and> cursor w < length xs \<longrightarrow>
      median_median (foldl median_insert w xs) = sort xs ! (length xs div 2))
   \<and> (xs \<noteq> [] \<longrightarrow>
      sort xs ! (length xs div 2) \<in> set xs
      \<and> length (filter (\<lambda>x. x < sort xs ! (length xs div 2)) xs) \<le> length xs div 2
      \<and> length (filter (\<lambda>x. sort xs ! (length xs div 2) < x) xs) \<le> (length xs - 1) div 2)"
proof (intro conjI impI)
  assume h: "xs \<noteq> [] \<and> length xs \<le> N"
  then have "length (sort xs) = length xs" by simp
  then have ne: "sort xs \<noteq> []" using h by (metis length_0_conv)
  show "median_median (foldl median_insert (median_init N) xs) = sort xs ! (length xs div 2)"
    using h ne by (simp add: inserts_prefix median_median_def median_contents_def Let_def)
next
  assume "length (buffer w) = length xs \<and> cursor w < length xs"
  then show "median_median (foldl median_insert w xs) = sort xs ! (length xs div 2)"
    by (intro median_of_full_window) simp_all
next
  assume "xs \<noteq> []"
  then show "sort xs ! (length xs div 2) \<in> set xs"
    by (rule middle_of_sorted_is_median)
next
  assume "xs \<noteq> []"
  then show "length (filter (\<lambda>x. x < sort xs ! (length xs div 2)) xs) \<le> length xs div 2"
    by (rule middle_of_sorted_is_median)
next
  assume "xs \<noteq> []"
  then show "length (filter (\<lambda>x. sort xs ! (length xs div 2) < x) xs) \<le> (length xs - 1) div 2"
    by (rule middle_of_sorted_is_median)
qed

theorem median_after_inserts_witness:
  "median_median (foldl median_insert (median_init 5) [5000, 10, 4000, 7, 4900]) = 4000
   \<and> median_median (foldl median_insert \<lparr>buffer = [1000, 1000, 1000], cursor = 1, count = 3\<rparr>
        [5000, 10, 4000]) = 4000
   \<and> (4000 :: u32) \<in> set [5000, 10, 4000]
   \<and> length (filter (\<lambda>x. x < (4000 :: u32)) [5000, 10, 4000]) \<le> 1
   \<and> length (filter (\<lambda>x. (4000 :: u32) < x) [5000, 10, 4000]) \<le> 1"
proof -
  have v5: "sort [5000, 10, 4000, 7, 4900 :: u32] ! (length [5000, 10, 4000, 7, 4900 :: u32] div 2)
             = 4000"
    by code_simp
  have v3: "sort [5000, 10, 4000 :: u32] ! (length [5000, 10, 4000 :: u32] div 2) = 4000"
    by code_simp
  have h1: "[5000, 10, 4000, 7, 4900 :: u32] \<noteq> [] \<and> length [5000, 10, 4000, 7, 4900 :: u32] \<le> 5"
    by simp
  have h2: "length (buffer \<lparr>buffer = [1000, 1000, 1000], cursor = 1, count = 3\<rparr>)
              = length [5000, 10, 4000 :: u32]
            \<and> cursor \<lparr>buffer = [1000, 1000, 1000], cursor = 1, count = 3\<rparr>
              < length [5000, 10, 4000 :: u32]"
    by simp
  have h3: "[5000, 10, 4000 :: u32] \<noteq> []" by simp
  note a = median_after_inserts [where xs = "[5000, 10, 4000, 7, 4900]" and N = 5,
      THEN conjunct1, THEN mp, OF h1, unfolded v5]
  note b = median_after_inserts [where xs = "[5000, 10, 4000]"
      and w = "\<lparr>buffer = [1000, 1000, 1000], cursor = 1, count = 3\<rparr>",
      THEN conjunct2, THEN conjunct1, THEN mp, OF h2, unfolded v3]
  note c = median_after_inserts [where xs = "[5000, 10, 4000]",
      THEN conjunct2, THEN conjunct2, THEN mp, OF h3, unfolded v3]
  from c have c': "(4000 :: u32) \<in> set [5000, 10, 4000]
   \<and> length (filter (\<lambda>x. x < (4000 :: u32)) [5000, 10, 4000]) \<le> 1
   \<and> length (filter (\<lambda>x. (4000 :: u32) < x) [5000, 10, 4000]) \<le> 1"
    by simp
  show ?thesis using a b c' by blast
qed

section \<open>Repeated filtered reads\<close>

text \<open>
  C6 as stated fails: with the period and the staleness state unchanged, the first read
  returns 1000 and the second returns 5000, and each of them changes the window.
\<close>

theorem consecutive_reads_differ:
  "fan_get_filtered_rpm median_get_median 0 (read_state [1000, 1000, 1000] 0)
     = Inr (1000, read_state [5000, 1000, 1000] 1)
   \<and> fan_get_filtered_rpm median_get_median 0 (read_state [5000, 1000, 1000] 1)
     = Inr (5000, read_state [5000, 5000, 1000] 2)
   \<and> (1000 :: u32) \<noteq> 5000
   \<and> read_state [5000, 1000, 1000] 1 \<noteq> read_state [1000, 1000, 1000] 0"
  by (simp add: fan_get_filtered_rpm_def u32_rpm_def median_get_median_def median_insert_def
      median_median_def median_contents_def read_state_def Let_def)

text \<open>
  An insertion moves the write cursor of a window of capacity greater than 1, so it
  changes the window whatever the sample is.
\<close>

lemma median_insert_cursor:
  "cursor (median_insert w sample) = (cursor w + 1) mod length (buffer w)"
  by (simp add: median_insert_def)

lemma median_insert_stores:
  assumes "cursor w < length (buffer w)"
  shows "buffer (median_insert w sample) ! cursor w = sample"
  using assms by (simp add: median_insert_def)

lemma median_insert_changes:
  assumes "1 < length (buffer w)" and "cursor w < length (buffer w)"
  shows "median_insert w sample \<noteq> w"
proof
  assume "median_insert w sample = w"
  then have "cursor (median_insert w sample) = cursor w" by simp
  then have e: "(cursor w + 1) mod length (buffer w) = cursor w"
    by (simp only: median_insert_cursor)
  show False
  proof (cases "cursor w + 1 < length (buffer w)")
    case True
    then show False using e by simp
  next
    case False
    then have "cursor w + 1 = length (buffer w)" using assms(2) by simp
    then have "(cursor w + 1) mod length (buffer w) = 0" by simp
    then have "cursor w = 0" using e by simp
    then show False using \<open>cursor w + 1 = length (buffer w)\<close> assms(1) by simp
  qed
qed

text \<open>
  C6, amended. The median is a function of the window alone, and what a read returns is
  the median of the window it leaves behind. When the signal is stale or no period has
  been captured, at both calls, two consecutive reads return the same value, 0, and
  leave the state unchanged. A read that is not stale and converts a nonzero period
  inserts the converted speed into the window: it stores the sample at the write cursor,
  advances the cursor by one modulo the capacity, and returns the median of the new
  window. For a window of capacity greater than 1 (its cursor inside the buffer) every
  such read changes the filter state.
\<close>

theorem repeated_read:
  "((tick - g_u32_cpu_ticks_now s > 1000 \<or> g_u32_time_diff s = 0)
      \<and> (tick' - g_u32_cpu_ticks_now s > 1000 \<or> g_u32_time_diff s = 0) \<longrightarrow>
      fan_get_filtered_rpm median_get_median tick s = Inr (0, s)
      \<and> fan_get_filtered_rpm median_get_median tick' s = Inr (0, s))
   \<and> (\<not> tick - g_u32_cpu_ticks_now s > 1000 \<and> g_u32_time_diff s \<noteq> 0
      \<and> u32_rpm (g_u32_time_diff s) = Inr rpm \<longrightarrow>
      fan_get_filtered_rpm median_get_median tick s
        = Inr (median_median (median_insert (median s) rpm),
               s\<lparr>median := median_insert (median s) rpm\<rparr>)
      \<and> cursor (median_insert (median s) rpm)
          = (cursor (median s) + 1) mod length (buffer (median s))
      \<and> (cursor (median s) < length (buffer (median s)) \<longrightarrow>
          buffer (median_insert (median s) rpm) ! cursor (median s) = rpm)
      \<and> (1 < length (buffer (median s)) \<and> cursor (median s) < length (buffer (median s)) \<longrightarrow>
          median_insert (median s) rpm \<noteq> median s
          \<and> s\<lparr>median := median_insert (median s) rpm\<rparr> \<noteq> s))"
proof (intro conjI impI)
  assume "(tick - g_u32_cpu_ticks_now s > 1000 \<or> g_u32_time_diff s = 0)
      \<and> (tick' - g_u32_cpu_ticks_now s > 1000 \<or> g_u32_time_diff s = 0)"
  then show "fan_get_filtered_rpm median_get_median tick s = Inr (0, s)"
    and "fan_get_filtered_rpm median_get_median tick' s = Inr (0, s)"
    by (auto simp: fan_get_filtered_rpm_def)
next
  assume "\<not> tick - g_u32_cpu_ticks_now s > 1000 \<and> g_u32_time_diff s \<noteq> 0
      \<and> u32_rpm (g_u32_time_diff s) = Inr rpm"
  then show "fan_get_filtered_rpm median_get_median tick s
        = Inr (median_median (median_insert (median s) rpm),
               s\<lparr>median := median_insert (median s) rpm\<rparr>)"
    by (auto simp: fan_get_filtered_rpm_def median_get_median_def Let_def)
next
  show "cursor (median_insert (median s) rpm)
          = (cursor (median s) + 1) mod length (buffer (median s))"
    by (rule median_insert_cursor)
next
  assume "cursor (median s) < length (buffer (median s))"
  then show "buffer (median_insert (median s) rpm) ! cursor (median s) = rpm"
    by (rule median_insert_stores)
next
  assume "1 < length (buffer (median s)) \<and> cursor (median s) < length (buffer (median s))"
  then show c: "median_insert (median s) rpm \<noteq> median s"
    by (intro median_insert_changes) simp_all
  show "s\<lparr>median := median_insert (median s) rpm\<rparr> \<noteq> s"
  proof
    assume "s\<lparr>median := median_insert (median s) rpm\<rparr> = s"
    then have "median (s\<lparr>median := median_insert (median s) rpm\<rparr>) = median s" by simp
    then show False using c by simp
  qed
qed

theorem repeated_read_witness:
  "fan_get_filtered_rpm median_get_median 5000 (read_state [1000, 1000, 1000] 0)
     = Inr (0, read_state [1000, 1000, 1000] 0)
   \<and> fan_get_filtered_rpm median_get_median 5020 (read_state [1000, 1000, 1000] 0)
     = Inr (0, read_state [1000, 1000, 1000] 0)
   \<and> fan_get_filtered_rpm median_get_median 500 (read_state [1000, 1000, 1000] 0)
     = Inr (1000, read_state [5000, 1000, 1000] 1)
   \<and> fan_get_filtered_rpm median_get_median 500 (read_state [5000, 5000, 5000] 0)
     = Inr (5000, read_state [5000, 5000, 5000] 1)
   \<and> read_state [5000, 5000, 5000] 1 \<noteq> read_state [5000, 5000, 5000] 0"
proof -
  let ?s = "read_state [1000, 1000, 1000] 0"
  let ?t = "read_state [5000, 5000, 5000] 0"
  have stale: "((5000 :: u32) - g_u32_cpu_ticks_now ?s > 1000 \<or> g_u32_time_diff ?s = 0)
      \<and> ((5020 :: u32) - g_u32_cpu_ticks_now ?s > 1000 \<or> g_u32_time_diff ?s = 0)"
    by (simp add: read_state_def)
  have fresh: "\<not> (500 :: u32) - g_u32_cpu_ticks_now ?s > 1000 \<and> g_u32_time_diff ?s \<noteq> 0
      \<and> u32_rpm (g_u32_time_diff ?s) = Inr 5000"
    by (simp add: read_state_def u32_rpm_def)
  have fresh': "\<not> (500 :: u32) - g_u32_cpu_ticks_now ?t > 1000 \<and> g_u32_time_diff ?t \<noteq> 0
      \<and> u32_rpm (g_u32_time_diff ?t) = Inr 5000"
    by (simp add: read_state_def u32_rpm_def)
  have inside: "cursor (median ?t) < length (buffer (median ?t))"
    by (simp add: read_state_def)
  have wide: "1 < length (buffer (median ?t)) \<and> cursor (median ?t) < length (buffer (median ?t))"
    by (simp add: read_state_def)
  note a = repeated_read [where tick = 5000 and tick' = 5020 and s = ?s,
      THEN conjunct1, THEN mp, OF stale]
  note r = repeated_read [where tick = 500 and s = ?s and rpm = 5000,
      THEN conjunct2, THEN mp, OF fresh, THEN conjunct1]
  have i: "median_insert (median ?s) 5000 = \<lparr>buffer = [5000, 1000, 1000], cursor = 1, count = 3\<rparr>"
    by (simp add: read_state_def median_insert_def)
  have m: "median_median \<lparr>buffer = [5000, 1000, 1000], cursor = 1, count = 3\<rparr> = 1000"
    by (simp add: median_median_def median_contents_def Let_def)
  have b: "fan_get_filtered_rpm median_get_median 500 ?s
        = Inr (1000, read_state [5000, 1000, 1000] 1)"
    using r unfolding i m by (simp add: read_state_def)
  note q = repeated_read [where tick = 500 and s = ?t and rpm = 5000,
      THEN conjunct2, THEN mp, OF fresh']
  have i': "median_insert (median ?t) 5000 = \<lparr>buffer = [5000, 5000, 5000], cursor = 1, count = 3\<rparr>"
    by (simp add: read_state_def median_insert_def)
  have m': "median_median \<lparr>buffer = [5000, 5000, 5000], cursor = 1, count = 3\<rparr> = 5000"
    by (simp add: median_median_def median_contents_def Let_def)
  have u: "?t\<lparr>median := median_insert (median ?t) 5000\<rparr> = read_state [5000, 5000, 5000] 1"
    unfolding i' by (simp add: read_state_def)
  have c: "fan_get_filtered_rpm median_get_median 500 ?t
        = Inr (5000, read_state [5000, 5000, 5000] 1)"
    using q [THEN conjunct1] unfolding i' m' by (simp add: read_state_def)
  have "buffer (median_insert (median ?t) 5000) ! cursor (median ?t) = 5000"
    using q [THEN conjunct2, THEN conjunct2, THEN conjunct1, THEN mp, OF inside] .
  have d: "read_state [5000, 5000, 5000] 1 \<noteq> ?t"
    using q [THEN conjunct2, THEN conjunct2, THEN conjunct2, THEN mp, OF wide, THEN conjunct2]
    unfolding u .
  show ?thesis using a b c d by blast
qed

section \<open>Properties of the rounding\<close>

lemma bitlen_ge_one:
  assumes "0 < (x::int)"
  shows "1 \<le> bitlen x"
proof -
  have "bitlen x \<noteq> 0" using assms by (simp add: bitlen_eq_zero_iff)
  moreover have "0 \<le> bitlen x" by (rule bitlen_nonneg)
  ultimately show ?thesis by linarith
qed

lemma bitlen_bounds_rat:
  assumes "0 < (x::int)"
  shows "(2::rat) powi (bitlen x - 1) \<le> of_int x" and "of_int x < (2::rat) powi (bitlen x)"
proof -
  have l: "1 \<le> bitlen x" using assms by (rule bitlen_ge_one)
  from bitlen_bounds [OF assms]
  have lo: "2 ^ nat (bitlen x - 1) \<le> x" and hi: "x < 2 ^ nat (bitlen x)" by simp_all
  have "(of_int (2 ^ nat (bitlen x - 1)) :: rat) \<le> of_int x"
    using lo by (simp only: of_int_le_iff)
  then show "(2::rat) powi (bitlen x - 1) \<le> of_int x"
    using l by (simp add: power_int_nonneg_exp)
  have "(of_int x :: rat) < of_int (2 ^ nat (bitlen x))"
    using hi by (simp only: of_int_less_iff)
  then show "of_int x < (2::rat) powi (bitlen x)"
    using l by (simp add: power_int_nonneg_exp)
qed

lemma ilog2_bounds:
  assumes "0 < q"
  shows "2 powi (ilog2 q) \<le> q" and "q < 2 powi (ilog2 q + 1)"
proof -
  obtain a b where ab: "quotient_of q = (a, b)" by (cases "quotient_of q")
  have b: "0 < b" using ab by (rule quotient_of_denom_pos)
  have q: "q = of_int a / of_int b" using ab by (rule quotient_of_div)
  have a: "0 < a" using assms b unfolding q by (simp add: zero_less_divide_iff)
  define d where "d = bitlen a - bitlen b"
  have il: "ilog2 q = (if 2 powi d \<le> q then d else d - 1)"
    by (simp add: ilog2_def ab d_def Let_def)
  have bpos: "(0::rat) < of_int b" using b by simp
  have lower: "(2::rat) powi (d - 1) \<le> q"
  proof -
    have "(2::rat) powi (d - 1) = 2 powi (bitlen a - 1) / 2 powi (bitlen b)"
      by (simp add: d_def power_int_diff [symmetric] algebra_simps)
    also have "\<dots> \<le> of_int a / of_int b"
      using bitlen_bounds_rat(1) [OF a] bitlen_bounds_rat(2) [OF b] bpos a
      by (intro frac_le) simp_all
    finally show ?thesis unfolding q .
  qed
  have upper: "q < (2::rat) powi (d + 1)"
  proof -
    have "of_int a / of_int b < (2::rat) powi (bitlen a) / 2 powi (bitlen b - 1)"
      using bitlen_bounds_rat(2) [OF a] bitlen_bounds_rat(1) [OF b] a
      by (intro frac_less) simp_all
    also have "\<dots> = (2::rat) powi (d + 1)"
      by (simp add: d_def power_int_diff [symmetric] algebra_simps)
    finally show ?thesis unfolding q .
  qed
  show "2 powi (ilog2 q) \<le> q" using lower by (simp add: il)
  show "q < 2 powi (ilog2 q + 1)"
  proof (cases "2 powi d \<le> q")
    case True
    then show ?thesis using upper by (simp add: il)
  next
    case False
    then show ?thesis by (simp add: il)
  qed
qed

lemma ilog2_mono:
  assumes "0 < a" and "a \<le> b"
  shows "ilog2 a \<le> ilog2 b"
proof (rule ccontr)
  assume "\<not> ilog2 a \<le> ilog2 b"
  then have "ilog2 b + 1 \<le> ilog2 a" by simp
  then have "(2::rat) powi (ilog2 b + 1) \<le> 2 powi (ilog2 a)"
    by (rule power_int_increasing) simp
  also have "\<dots> \<le> a" using assms(1) by (rule ilog2_bounds)
  also have "\<dots> \<le> b" by (rule assms(2))
  finally show False using ilog2_bounds(2) [of b] assms by simp
qed

lemma round_ties_even_of_int: "round_ties_even (of_int n) = n"
  by (simp add: round_ties_even_def)

lemma round_ties_even_ge_floor: "\<lfloor>x\<rfloor> \<le> round_ties_even x"
  by (simp add: round_ties_even_def Let_def)

lemma round_ties_even_le_ceil: "round_ties_even x \<le> \<lfloor>x\<rfloor> + 1"
  by (simp add: round_ties_even_def Let_def)

lemma round_ties_even_mono:
  assumes "x \<le> y"
  shows "round_ties_even x \<le> round_ties_even y"
proof (cases "\<lfloor>x\<rfloor> = \<lfloor>y\<rfloor>")
  case True
  have "x - of_int \<lfloor>x\<rfloor> \<le> y - of_int \<lfloor>x\<rfloor>" using assms by simp
  then show ?thesis
    unfolding round_ties_even_def Let_def True [symmetric] by auto
next
  case False
  moreover have "\<lfloor>x\<rfloor> \<le> \<lfloor>y\<rfloor>" using assms by (rule floor_mono)
  ultimately have "\<lfloor>x\<rfloor> + 1 \<le> \<lfloor>y\<rfloor>" by simp
  then show ?thesis
    using round_ties_even_le_ceil [of x] round_ties_even_ge_floor [of y] by linarith
qed

lemma ulp32_pos: "0 < ulp32 m"
  by (simp add: ulp32_def)

lemma rnd_mag_nonneg:
  assumes "0 \<le> m"
  shows "0 \<le> rnd_mag m"
proof (cases "m = 0")
  case True
  then show ?thesis by (simp add: rnd_mag_def)
next
  case False
  have "0 \<le> m / ulp32 m" using assms ulp32_pos [of m] by simp
  then have "round_ties_even (of_int 0) \<le> round_ties_even (m / ulp32 m)"
    by (intro round_ties_even_mono) simp
  then have "0 \<le> round_ties_even (m / ulp32 m)" by (simp only: round_ties_even_of_int)
  then show ?thesis using False ulp32_pos [of m] by (simp add: rnd_mag_def)
qed

text \<open>A rounded magnitude stays inside the closed binade of the exact one.\<close>

lemma rnd_mag_upper:
  assumes "0 < m"
  shows "rnd_mag m \<le> 2 powi (max (ilog2 m) (- 126) + 1)"
proof -
  define e where "e = max (ilog2 m) (- 126)"
  have u: "ulp32 m = 2 powi (e - 23)" by (simp add: ulp32_def e_def)
  have "m < 2 powi (ilog2 m + 1)" using assms by (rule ilog2_bounds)
  also have "\<dots> \<le> 2 powi (e + 1)" by (rule power_int_increasing) (simp_all add: e_def)
  finally have m: "m < 2 powi (e + 1)" .
  have split: "(2::rat) powi (e + 1) = 2 ^ 24 * 2 powi (e - 23)"
  proof -
    have "e + 1 = 24 + (e - 23)" by simp
    then have "(2::rat) powi (e + 1) = 2 powi (24 + (e - 23))" by (simp only:)
    also have "\<dots> = 2 powi 24 * 2 powi (e - 23)" by (rule power_int_add) simp
    finally show ?thesis by simp
  qed
  have "m / ulp32 m \<le> 2 ^ 24"
    using m unfolding u split by (simp add: pos_divide_le_eq)
  then have "round_ties_even (m / ulp32 m) \<le> round_ties_even (of_int (2 ^ 24))"
    by (intro round_ties_even_mono) simp
  then have "round_ties_even (m / ulp32 m) \<le> 2 ^ 24"
    by (simp only: round_ties_even_of_int)
  then have "(of_int (round_ties_even (m / ulp32 m)) :: rat) \<le> of_int (2 ^ 24)"
    by (simp only: of_int_le_iff)
  then have "of_int (round_ties_even (m / ulp32 m)) * ulp32 m \<le> 2 ^ 24 * ulp32 m"
    using ulp32_pos [of m] by (intro mult_right_mono) simp_all
  then show ?thesis
    using assms unfolding e_def [symmetric] split u by (simp add: rnd_mag_def u)
qed

lemma rnd_mag_lower:
  assumes "0 < m" and "- 126 \<le> ilog2 m"
  shows "2 powi (ilog2 m) \<le> rnd_mag m"
proof -
  define e where "e = ilog2 m"
  have u: "ulp32 m = 2 powi (e - 23)" using assms(2) by (simp add: ulp32_def e_def max_def)
  have m: "2 powi e \<le> m" unfolding e_def using assms(1) by (rule ilog2_bounds)
  have split: "(2::rat) powi e = 2 ^ 23 * 2 powi (e - 23)"
  proof -
    have "e = 23 + (e - 23)" by simp
    then have "(2::rat) powi e = 2 powi (23 + (e - 23))" by (simp only:)
    also have "\<dots> = 2 powi 23 * 2 powi (e - 23)" by (rule power_int_add) simp
    finally show ?thesis by simp
  qed
  have "2 ^ 23 \<le> m / ulp32 m"
    using m unfolding u split by (simp add: pos_le_divide_eq)
  then have "round_ties_even (of_int (2 ^ 23)) \<le> round_ties_even (m / ulp32 m)"
    by (intro round_ties_even_mono) simp
  then have "2 ^ 23 \<le> round_ties_even (m / ulp32 m)"
    by (simp only: round_ties_even_of_int)
  then have "(of_int (2 ^ 23) :: rat) \<le> of_int (round_ties_even (m / ulp32 m))"
    by (simp only: of_int_le_iff)
  then have "2 ^ 23 * ulp32 m \<le> of_int (round_ties_even (m / ulp32 m)) * ulp32 m"
    using ulp32_pos [of m] by (intro mult_right_mono) simp_all
  then show ?thesis
    using assms(1) unfolding e_def [symmetric] split u by (simp add: rnd_mag_def u)
qed

text \<open>Rounding to nearest is monotone.\<close>

lemma rnd_mag_mono:
  assumes "0 \<le> a" and "a \<le> b"
  shows "rnd_mag a \<le> rnd_mag b"
proof (cases "a = 0")
  case True
  then show ?thesis using rnd_mag_nonneg [of b] assms by (simp add: rnd_mag_def)
next
  case False
  then have a: "0 < a" using assms(1) by simp
  then have b: "0 < b" using assms(2) by simp
  have le: "ilog2 a \<le> ilog2 b" using a assms(2) by (rule ilog2_mono)
  show ?thesis
  proof (cases "max (ilog2 a) (- 126) = max (ilog2 b) (- 126)")
    case True
    then have u: "ulp32 a = ulp32 b" by (simp add: ulp32_def)
    have "a / ulp32 b \<le> b / ulp32 b"
      using assms(2) ulp32_pos [of b] by (simp add: divide_right_mono)
    then have "round_ties_even (a / ulp32 b) \<le> round_ties_even (b / ulp32 b)"
      by (rule round_ties_even_mono)
    then have "(of_int (round_ties_even (a / ulp32 b)) :: rat)
                 \<le> of_int (round_ties_even (b / ulp32 b))"
      by (simp only: of_int_le_iff)
    then have "of_int (round_ties_even (a / ulp32 b)) * ulp32 b
                 \<le> of_int (round_ties_even (b / ulp32 b)) * ulp32 b"
      using ulp32_pos [of b] by (intro mult_right_mono) simp_all
    then show ?thesis using a b by (simp add: rnd_mag_def u)
  next
    case False
    with le have lt: "max (ilog2 a) (- 126) < ilog2 b" and n: "- 126 \<le> ilog2 b"
      by (auto simp: max_def split: if_splits)
    have "rnd_mag a \<le> 2 powi (max (ilog2 a) (- 126) + 1)" using a by (rule rnd_mag_upper)
    also have "\<dots> \<le> 2 powi (ilog2 b)"
    proof (rule power_int_increasing)
      show "max (ilog2 a) (- 126) + 1 \<le> ilog2 b" using lt by linarith
      show "(1::rat) \<le> 2" by simp
    qed
    also have "\<dots> \<le> rnd_mag b" using b n by (rule rnd_mag_lower)
    finally show ?thesis .
  qed
qed

lemma rnd_mag_zero: "rnd_mag 0 = 0"
  by (simp add: rnd_mag_def)

lemma rnd_mag_fixed_points:
  "rnd_mag 4294967296 = 4294967296" "rnd_mag 40000 = 40000" "rnd_mag 400 = 400"
  by code_simp+

lemma rnd32_not_NaN: "rnd32 sg m \<noteq> NaN"
  by (simp add: rnd32_def)

lemma rnd32_magnitude_nonneg:
  assumes "0 \<le> m" and "rnd32 sg m = Fin t r"
  shows "0 \<le> r"
  using assms rnd_mag_nonneg [of m] by (auto simp: rnd32_def split: if_splits)

text \<open>Below a number that rounds to itself, and below the overflow threshold, the result is finite.\<close>

lemma rnd32_finite:
  assumes "0 \<le> m" and "m \<le> c" and "rnd_mag c = c" and "c < 2 powi 128"
  shows "rnd32 sg m = Fin sg (rnd_mag m)" and "0 \<le> rnd_mag m" and "rnd_mag m \<le> c"
proof -
  show le: "rnd_mag m \<le> c" using rnd_mag_mono [OF assms(1,2)] assms(3) by simp
  show "0 \<le> rnd_mag m" using assms(1) by (rule rnd_mag_nonneg)
  show "rnd32 sg m = Fin sg (rnd_mag m)" using le assms(4) by (simp add: rnd32_def)
qed

lemma f32_of_rat_nonneg:
  assumes "0 \<le> q"
  shows "f32_of_rat q = rnd32 False q"
  using assms by (simp add: f32_of_rat_def)

lemma gains_values:
  "g_f_kp = Fin False (5368709 / 134217728)"
  "g_f_ki = Fin False (16106127 / 536870912)"
  "g_f_ta = Fin False (5368709 / 268435456)"
  by code_simp+

lemma u32_to_f32_finite:
  "\<exists>a. u32_to_f32 x = Fin False a \<and> 0 \<le> a \<and> a \<le> 4294967296"
proof -
  have "uint x < 2 ^ 32" using uint_lt2p [of x] by simp
  then have "uint x \<le> 4294967296" by simp
  then have "(of_int (uint x) :: rat) \<le> of_int 4294967296" by (simp only: of_int_le_iff)
  then have hi: "(of_int (uint x) :: rat) \<le> 4294967296" by (simp only: of_int_numeral)
  have "0 \<le> uint x" by (rule uint_ge_0)
  then have "(of_int 0 :: rat) \<le> of_int (uint x)" by (simp only: of_int_le_iff)
  then have lo: "(0::rat) \<le> of_int (uint x)" by (simp only: of_int_0)
  have big: "(4294967296::rat) < 2 powi 128" by simp
  note r = rnd32_finite [OF lo hi rnd_mag_fixed_points(1) big]
  show ?thesis
    unfolding u32_to_f32_def f32_of_rat_nonneg [OF lo] using r by blast
qed

lemma f_error_finite:
  "\<exists>sg m. f_error target_rpm filtered_rpm = Fin sg m \<and> 0 \<le> m \<and> m \<le> 4294967296"
proof -
  obtain a where a: "u32_to_f32 target_rpm = Fin False a" "0 \<le> a" "a \<le> 4294967296"
    using u32_to_f32_finite by blast
  obtain b where b: "u32_to_f32 filtered_rpm = Fin False b" "0 \<le> b" "b \<le> 4294967296"
    using u32_to_f32_finite by blast
  have e: "f_error target_rpm filtered_rpm
             = (if a - b = 0 then Fin False 0 else rnd32 (a - b < 0) \<bar>a - b\<bar>)"
    by (simp add: f_error_def fsub_def a(1) b(1) fin_val_def f32_of_rat_def)
  show ?thesis
  proof (cases "a - b = 0")
    case True
    then have "f_error target_rpm filtered_rpm = Fin False 0" unfolding e by simp
    then show ?thesis by (intro exI [where x = False] exI [where x = 0]) simp
  next
    case False
    have lo: "0 \<le> \<bar>a - b\<bar>" by simp
    have hi: "\<bar>a - b\<bar> \<le> 4294967296" using a(2,3) b(2,3) by linarith
    have big: "(4294967296::rat) < 2 powi 128" by simp
    note r = rnd32_finite [OF lo hi rnd_mag_fixed_points(1) big]
    show ?thesis unfolding e using False r by auto
  qed
qed

lemma fmul_small_gain_finite:
  assumes "0 \<le> g" and "g \<le> 1" and "0 \<le> m" and "m \<le> 4294967296"
  shows "rnd32 sg (g * m) = Fin sg (rnd_mag (g * m))" and "0 \<le> rnd_mag (g * m)"
proof -
  have lo: "0 \<le> g * m" using assms by simp
  have "g * m \<le> 1 * m" using assms by (intro mult_right_mono) simp_all
  then have hi: "g * m \<le> 4294967296" using assms(4) by simp
  have big: "(4294967296::rat) < 2 powi 128" by simp
  note r = rnd32_finite [OF lo hi rnd_mag_fixed_points(1) big]
  show "rnd32 sg (g * m) = Fin sg (rnd_mag (g * m))" using r by blast
  show "0 \<le> rnd_mag (g * m)" using r by blast
qed

lemma kp_error_finite:
  "\<exists>sg m. fmul g_f_kp (f_error target_rpm filtered_rpm) = Fin sg m \<and> 0 \<le> m"
proof -
  obtain sg m where e: "f_error target_rpm filtered_rpm = Fin sg m" "0 \<le> m" "m \<le> 4294967296"
    using f_error_finite by blast
  have "rnd32 (False \<noteq> sg) ((5368709 / 134217728) * m)
          = Fin (False \<noteq> sg) (rnd_mag ((5368709 / 134217728) * m))"
    and "0 \<le> rnd_mag ((5368709 / 134217728) * m)"
    using e(2,3) by (intro fmul_small_gain_finite; simp)+
  then show ?thesis unfolding e(1) gains_values by auto
qed

lemma error_ta_finite:
  "\<exists>sg m. fmul (f_error target_rpm filtered_rpm) g_f_ta = Fin sg m \<and> 0 \<le> m"
proof -
  obtain sg m where e: "f_error target_rpm filtered_rpm = Fin sg m" "0 \<le> m" "m \<le> 4294967296"
    using f_error_finite by blast
  have "rnd32 (sg \<noteq> False) ((5368709 / 268435456) * m)
          = Fin (sg \<noteq> False) (rnd_mag ((5368709 / 268435456) * m))"
    and "0 \<le> rnd_mag ((5368709 / 268435456) * m)"
    using e(2,3) by (intro fmul_small_gain_finite; simp)+
  then show ?thesis unfolding e(1) gains_values by (auto simp: mult.commute)
qed

lemma fadd_finite_not_NaN:
  assumes "y \<noteq> NaN"
  shows "fadd (Fin s a) y \<noteq> NaN" and "fadd y (Fin s a) \<noteq> NaN"
  using assms by (cases y; simp add: Let_def f32_of_rat_def rnd32_not_NaN)+

lemma fadd_magnitude_nonneg:
  assumes "fadd x y = Fin sg m"
  shows "0 \<le> m"
proof (cases x)
  case NaN
  then show ?thesis using assms by simp
next
  case (Inf s)
  then show ?thesis using assms by (cases y) (simp_all split: if_splits)
next
  case (Fin s a)
  show ?thesis
  proof (cases y)
    case NaN
    then show ?thesis using assms Fin by simp
  next
    case (Inf t)
    then show ?thesis using assms Fin by simp
  next
    case (Fin t b)
    show ?thesis
    proof (cases "fin_val s a + fin_val t b = 0")
      case True
      then show ?thesis using assms \<open>x = Fin s a\<close> Fin by simp
    next
      case False
      then have "rnd32 (fin_val s a + fin_val t b < 0) \<bar>fin_val s a + fin_val t b\<bar> = Fin sg m"
        using assms \<open>x = Fin s a\<close> Fin by (simp add: Let_def f32_of_rat_def)
      then show ?thesis by (rule rnd32_magnitude_nonneg [rotated]) simp
    qed
  qed
qed

lemma ki_esum_not_NaN:
  assumes "esum \<noteq> NaN"
  shows "fmul g_f_ki esum \<noteq> NaN"
  using assms unfolding gains_values by (cases esum) (simp_all add: rnd32_not_NaN)

text \<open>In every state whose integral is not a NaN, the unclamped output is not a NaN.\<close>

lemma f_output_raw_not_NaN:
  assumes "esum \<noteq> NaN"
  shows "f_output_raw target_rpm filtered_rpm esum \<noteq> NaN"
proof -
  obtain sg m where "fmul g_f_kp (f_error target_rpm filtered_rpm) = Fin sg m"
    using kp_error_finite by blast
  then show ?thesis
    unfolding f_output_raw_def using fadd_finite_not_NaN(1) [OF ki_esum_not_NaN [OF assms]] by simp
qed

lemma pi_step_esum_not_NaN:
  assumes "esum \<noteq> NaN"
  shows "snd (pi_step target_rpm filtered_rpm esum) \<noteq> NaN"
proof -
  obtain sg m where "fmul (f_error target_rpm filtered_rpm) g_f_ta = Fin sg m"
    using error_ta_finite by blast
  then have "fadd esum (fmul (f_error target_rpm filtered_rpm) g_f_ta) \<noteq> NaN"
    using fadd_finite_not_NaN(2) [OF assms] by simp
  then show ?thesis using assms by (simp add: pi_step_def Let_def)
qed

text \<open>The output after the limits is a finite number from 0 to 100.\<close>

lemma pi_step_output_range:
  assumes "esum \<noteq> NaN"
  shows "\<exists>sg m. fst (pi_step target_rpm filtered_rpm esum) = Fin sg m
           \<and> 0 \<le> m \<and> m \<le> 100 \<and> (sg \<longrightarrow> m = 0)"
proof -
  define raw where "raw = f_output_raw target_rpm filtered_rpm esum"
  have nn: "raw \<noteq> NaN" unfolding raw_def using assms by (rule f_output_raw_not_NaN)
  have st: "fst (pi_step target_rpm filtered_rpm esum)
              = (if fgt raw (Fin False 100) then Fin False 100
                 else if flt raw (Fin False 0) then Fin False 0 else raw)"
    by (simp add: pi_step_def Let_def raw_def)
  show ?thesis
  proof (cases "fgt raw (Fin False 100) \<or> flt raw (Fin False 0)")
    case True
    then show ?thesis unfolding st by auto
  next
    case False
    then have a: "\<not> flt (Fin False 100) raw" and b: "\<not> flt raw (Fin False 0)"
      by (simp_all add: fgt_def)
    show ?thesis
    proof (cases raw)
      case NaN
      then show ?thesis using nn by simp
    next
      case (Inf s)
      then show ?thesis using a b by simp
    next
      case (Fin sg m)
      have "fadd (fmul g_f_kp (f_error target_rpm filtered_rpm)) (fmul g_f_ki esum) = Fin sg m"
        using Fin by (simp add: raw_def f_output_raw_def)
      then have m: "0 \<le> m" by (rule fadd_magnitude_nonneg)
      have "fin_val sg m \<le> 100" and "0 \<le> fin_val sg m"
        using a b Fin by (simp_all add: fin_val_def)
      then have "m \<le> 100 \<and> (sg \<longrightarrow> m = 0)"
        using m by (auto simp: fin_val_def split: if_splits)
      then show ?thesis unfolding st using False Fin m by simp
    qed
  qed
qed

text \<open>The integers below \<open>2 ^ 24\<close> are binary32 numbers: they round to themselves.\<close>

lemma rnd_mag_of_int:
  assumes "0 \<le> n" and "n < 2 ^ 24"
  shows "rnd_mag (of_int n) = of_int n"
proof (cases "n = 0")
  case True
  then show ?thesis by (simp add: rnd_mag_zero)
next
  case False
  then have n1: "1 \<le> n" using assms(1) by simp
  define q :: rat where "q = of_int n"
  have q1: "1 \<le> q" unfolding q_def using n1 by simp
  then have q0: "0 < q" by simp
  have lo: "0 \<le> ilog2 q"
  proof (rule ccontr)
    assume "\<not> 0 \<le> ilog2 q"
    then have "ilog2 q + 1 \<le> 0" by simp
    then have "(2::rat) powi (ilog2 q + 1) \<le> 2 powi 0"
      by (rule power_int_increasing) simp
    then show False using ilog2_bounds(2) [OF q0] q1 by simp
  qed
  have hi: "ilog2 q \<le> 23"
  proof (rule ccontr)
    assume "\<not> ilog2 q \<le> 23"
    then have "24 \<le> ilog2 q" by simp
    then have "(2::rat) powi 24 \<le> 2 powi (ilog2 q)"
      by (rule power_int_increasing) simp
    also have "\<dots> \<le> q" using q0 by (rule ilog2_bounds)
    finally have "(2::rat) ^ 24 \<le> of_int n" by (simp add: q_def)
    moreover have "(of_int n :: rat) < of_int (2 ^ 24)" using assms(2) by (simp only: of_int_less_iff)
    ultimately show False by simp
  qed
  define k where "k = nat (23 - ilog2 q)"
  have u: "ulp32 q = 1 / 2 ^ k"
  proof -
    have "ulp32 q = 2 powi (- int k)" using lo hi by (simp add: ulp32_def k_def max_def)
    also have "\<dots> = 1 / 2 ^ k" by (simp add: power_int_minus_divide)
    finally show ?thesis .
  qed
  have "q / ulp32 q = of_int (n * 2 ^ k)" unfolding u by (simp add: q_def)
  then have "round_ties_even (q / ulp32 q) = n * 2 ^ k" by (simp only: round_ties_even_of_int)
  then have "rnd_mag q = of_int (n * 2 ^ k) * (1 / 2 ^ k)"
    using q0 by (simp add: rnd_mag_def u)
  also have "\<dots> = q" by (simp add: q_def)
  finally show ?thesis unfolding q_def .
qed

lemma unat_word_of_int_small:
  assumes "0 \<le> j" and "j < 2 ^ 32"
  shows "int (unat (word_of_int j :: u32)) = j"
  using assms by (simp add: unsigned_of_int take_bit_int_eq_self)

text \<open>
  The compare value for an output from 0 to 100 and the period 399: the conversion is
  defined, and the value lies between the exact quotient \<open>400 * m / 100\<close> rounded down
  and rounded up.
\<close>

lemma compare_of_bounds:
  assumes "0 \<le> m" and "m \<le> 100" and "sg \<longrightarrow> m = 0"
  shows "\<exists>c. compare_of 399 (Fin sg m) = Inr c
           \<and> c = word_of_int \<lfloor>rnd_mag (rnd_mag (400 * m) / 100)\<rfloor>
           \<and> \<lfloor>400 * m / 100\<rfloor> \<le> int (unat c) \<and> int (unat c) \<le> \<lceil>400 * m / 100\<rceil>"
proof -
  define x where "x = rnd_mag (400 * m)"
  define y where "y = rnd_mag (x / 100)"
  define k where "k = \<lfloor>400 * m / 100\<rfloor>"
  define K where "K = \<lceil>400 * m / 100\<rceil>"
  have big: "(40000::rat) < 2 powi 128" "(400::rat) < 2 powi 128" by simp_all
  have u400: "u32_to_f32 (399 + 1) = Fin False 400" by code_simp
  have m0: "0 \<le> 400 * m" and m1: "400 * m \<le> 40000" using assms by simp_all
  note rx = rnd32_finite [OF m0 m1 rnd_mag_fixed_points(2) big(1), folded x_def]
  have x0: "0 \<le> x / 100" and x1: "x / 100 \<le> 400" using rx(2,3) by simp_all
  note ry = rnd32_finite [OF x0 x1 rnd_mag_fixed_points(3) big(2), folded y_def]
  have val: "fdiv (fmul (u32_to_f32 (399 + 1)) (Fin sg m)) (Fin False 100) = Fin sg y"
    unfolding u400 using rx(1) [of sg] ry(1) [of sg] by simp
  have k0: "0 \<le> k" unfolding k_def using assms(1) by simp
  have K4: "K \<le> 400" unfolding K_def using assms(2) by (simp add: ceiling_le_iff)
  have kK: "k \<le> K" unfolding k_def K_def by (rule floor_le_ceiling)
  have k_le: "of_int k \<le> 400 * m / 100" unfolding k_def by (rule of_int_floor_le)
  have K_ge: "400 * m / 100 \<le> of_int K" unfolding K_def by (rule le_of_int_ceiling)
  have K0: "0 \<le> K" using k0 kK by simp
  have lower: "of_int k \<le> y"
  proof -
    have "(of_int (100 * k) :: rat) \<le> 400 * m" using k_le by simp
    moreover have "(0::rat) \<le> of_int (100 * k)" using k0 by simp
    ultimately have "rnd_mag (of_int (100 * k)) \<le> x" unfolding x_def by (intro rnd_mag_mono)
    moreover have "rnd_mag (of_int (100 * k)) = of_int (100 * k)"
      using k0 kK K4 by (intro rnd_mag_of_int) simp_all
    ultimately have "(of_int k :: rat) \<le> x / 100" by simp
    moreover have "(0::rat) \<le> of_int k" using k0 by simp
    ultimately have "rnd_mag (of_int k) \<le> y" unfolding y_def by (intro rnd_mag_mono)
    moreover have "rnd_mag (of_int k) = of_int k"
      using k0 kK K4 by (intro rnd_mag_of_int) simp_all
    ultimately show ?thesis by simp
  qed
  have upper: "y \<le> of_int K"
  proof -
    have "400 * m \<le> (of_int (100 * K) :: rat)" using K_ge by simp
    then have "x \<le> rnd_mag (of_int (100 * K))" unfolding x_def using m0 by (intro rnd_mag_mono)
    moreover have "rnd_mag (of_int (100 * K)) = of_int (100 * K)"
      using K0 K4 by (intro rnd_mag_of_int) simp_all
    ultimately have "x / 100 \<le> (of_int K :: rat)" by simp
    then have "y \<le> rnd_mag (of_int K)" unfolding y_def using x0 by (intro rnd_mag_mono)
    moreover have "rnd_mag (of_int K) = of_int K"
      using K0 K4 by (intro rnd_mag_of_int) simp_all
    ultimately show ?thesis by simp
  qed
  have fl_lo: "k \<le> \<lfloor>y\<rfloor>" using lower by (simp add: le_floor_iff)
  have fl_hi: "\<lfloor>y\<rfloor> \<le> K"
  proof -
    have "of_int \<lfloor>y\<rfloor> \<le> y" by (rule of_int_floor_le)
    then have "(of_int \<lfloor>y\<rfloor> :: rat) \<le> of_int K" using upper by (rule order_trans)
    then show ?thesis by (simp only: of_int_le_iff)
  qed
  show ?thesis
  proof (cases sg)
    case True
    then have "m = 0" using assms(3) by simp
    then have "y = 0" by (simp add: y_def x_def rnd_mag_zero)
    then have c: "compare_of 399 (Fin sg m) = Inr 0"
      unfolding compare_of_def val using True by simp
    have "k = 0" "K = 0" using \<open>m = 0\<close> by (simp_all add: k_def K_def)
    then show ?thesis
      unfolding c k_def [symmetric] K_def [symmetric] x_def [symmetric] y_def [symmetric]
      using \<open>y = 0\<close> by simp
  next
    case False
    have "\<lfloor>y\<rfloor> \<le> 400" using fl_hi K4 by linarith
    moreover have "(400::int) < 2 ^ 32" by simp
    ultimately have r2: "\<lfloor>y\<rfloor> < 2 ^ 32" by (rule le_less_trans)
    have r1: "0 \<le> \<lfloor>y\<rfloor>" using fl_lo k0 by linarith
    note r = r1 r2
    then have c: "compare_of 399 (Fin sg m) = Inr (word_of_int \<lfloor>y\<rfloor>)"
      unfolding compare_of_def val using False by simp
    show ?thesis
      unfolding c k_def [symmetric] K_def [symmetric] x_def [symmetric] y_def [symmetric]
      using fl_lo fl_hi unat_word_of_int_small [OF r] by simp
  qed
qed

section \<open>Properties of the reachable states\<close>

lemma read_frame:
  assumes "fan_get_filtered_rpm mgm tick s = Inr (rpm, s1)"
  shows "f_esum s1 = f_esum s" and "tim9_period s1 = tim9_period s"
    and "g_u32_target_rpm s1 = g_u32_target_rpm s"
  using assms
  by (auto simp: fan_get_filtered_rpm_def split: if_splits sum.splits prod.splits)

lemma update_frame:
  assumes "fan_update_pi_controller mgm tick s = Inr s'"
  shows "\<exists>rpm s1. fan_get_filtered_rpm mgm tick s = Inr (rpm, s1)
           \<and> f_esum s' = snd (pi_step (g_u32_target_rpm s1) rpm (f_esum s1))
           \<and> tim9_period s' = tim9_period s1"
  using assms
  by (auto simp: fan_update_pi_controller_def split: sum.splits prod.splits)

text \<open>In every reachable state the integral is not a NaN and the PWM period is 399.\<close>

lemma reachable_invariant:
  assumes "reachable mgm f0 s"
  shows "f_esum s \<noteq> NaN \<and> tim9_period s = 399"
  using assms
proof (induction rule: reachable.induct)
  case reach_init
  show ?case by (simp add: fan_control_init_def fan_timer_init_def fan_static_init_def)
next
  case (reach_edge s gpio_pin counter tick)
  then show ?case by (simp add: HAL_GPIO_EXTI_Callback_def Let_def)
next
  case (reach_target s target_rpm)
  then show ?case by (simp add: fan_change_target_rpm_def)
next
  case (reach_read s tick rpm s')
  then show ?case using read_frame(1,2) [OF reach_read.hyps(2)] by simp
next
  case (reach_update s tick s')
  obtain rpm s1 where r: "fan_get_filtered_rpm mgm tick s = Inr (rpm, s1)"
      "f_esum s' = snd (pi_step (g_u32_target_rpm s1) rpm (f_esum s1))"
      "tim9_period s' = tim9_period s1"
    using update_frame [OF reach_update.hyps(2)] by blast
  have "f_esum s1 \<noteq> NaN" "tim9_period s1 = 399"
    using read_frame(1,2) [OF r(1)] reach_update.IH by simp_all
  then show ?case using r(2,3) pi_step_esum_not_NaN by simp
qed

text \<open>A controller cycle that gets its filtered speed completes.\<close>

lemma update_completes:
  assumes "reachable mgm f0 s" and "fan_get_filtered_rpm mgm tick s = Inr (rpm, s1)"
  obtains sg m c where
    "fst (pi_step (g_u32_target_rpm s1) rpm (f_esum s1)) = Fin sg m"
    and "0 \<le> m" and "m \<le> 100" and "sg \<longrightarrow> m = 0"
    and "tim9_period s1 = 399"
    and "compare_of (tim9_period s1) (Fin sg m) = Inr c"
    and "\<lfloor>400 * m / 100\<rfloor> \<le> int (unat c)" and "int (unat c) \<le> \<lceil>400 * m / 100\<rceil>"
    and "fan_update_pi_controller mgm tick s
           = Inr (s1\<lparr>f_esum := snd (pi_step (g_u32_target_rpm s1) rpm (f_esum s1)),
                    tim9_ccr1 := c\<rparr>)"
proof -
  have inv: "f_esum s1 \<noteq> NaN" "tim9_period s1 = 399"
    using reachable_invariant [OF assms(1)] read_frame(1,2) [OF assms(2)] by simp_all
  from pi_step_output_range [OF inv(1), of "g_u32_target_rpm s1" rpm]
  obtain sg m where o: "fst (pi_step (g_u32_target_rpm s1) rpm (f_esum s1)) = Fin sg m"
      "0 \<le> m" "m \<le> 100" "sg \<longrightarrow> m = 0"
    by blast
  from compare_of_bounds [OF o(2,3,4)]
  obtain c where c: "compare_of 399 (Fin sg m) = Inr c"
      "\<lfloor>400 * m / 100\<rfloor> \<le> int (unat c)" "int (unat c) \<le> \<lceil>400 * m / 100\<rceil>"
    by blast
  have c': "compare_of (tim9_period s1) (Fin sg m) = Inr c" using c(1) inv(2) by simp
  have upd: "fan_update_pi_controller mgm tick s
          = Inr (s1\<lparr>f_esum := snd (pi_step (g_u32_target_rpm s1) rpm (f_esum s1)),
                   tim9_ccr1 := c\<rparr>)"
    unfolding fan_update_pi_controller_def assms(2) using o(1) c(1) inv(2)
    by (simp add: split_def Let_def)
  show thesis
    by (rule that [OF o(1) o(2) o(3) o(4) inv(2) c' c(2) c(3) upd])
qed

section \<open>Properties of the controller cycle\<close>

lemma in_range_iff_no_limit:
  assumes "raw \<noteq> NaN"
  shows "f32_in_range raw 0 100 \<longleftrightarrow> \<not> fgt raw (Fin False 100) \<and> \<not> flt raw (Fin False 0)"
  using assms by (cases raw) (auto simp: f32_in_range_def fgt_def fin_val_def)

lemma idle_state_reachable: "reachable pass_through () (idle_state target_rpm)"
  unfolding idle_state_def by (intro reach_target reach_init)

lemma idle_state_read:
  "fan_get_filtered_rpm pass_through 0 (idle_state target_rpm) = Inr (0, idle_state target_rpm)"
  by (simp add: fan_get_filtered_rpm_def idle_state_def fan_change_target_rpm_def
      fan_control_init_def fan_timer_init_def fan_static_init_def)

lemma idle_state_fields:
  "g_u32_target_rpm (idle_state target_rpm) = target_rpm"
  "f_esum (idle_state target_rpm) = Fin False 0"
  "tim9_period (idle_state target_rpm) = 399"
  by (simp_all add: idle_state_def fan_change_target_rpm_def
      fan_control_init_def fan_timer_init_def fan_static_init_def)

text \<open>
  C1. In every controller cycle of a reachable state that gets its filtered speed, the
  error is the target minus the filtered speed and the raw output is
  \<open>Kp * error + Ki * integral\<close>, in single precision with the gains \<open>0.04f\<close>, \<open>0.03f\<close>
  and the sampling time \<open>0.02f\<close>. When the raw output lies in [0, 100] the integral
  advances by \<open>error * Ta\<close> and the output is the raw output; otherwise the output is 0
  or 100 and the integral stays as it was. The cycle completes and stores that integral.
  For the target 5000, the filtered speed 0 and the integral 0 the raw output is 200,
  the output is 100 and the integral stays 0.
\<close>

theorem pi_cycle:
  assumes "reachable mgm f0 s" and "fan_get_filtered_rpm mgm tick s = Inr (rpm, s1)"
  shows "f_error (g_u32_target_rpm s1) rpm
           = fsub (u32_to_f32 (g_u32_target_rpm s1)) (u32_to_f32 rpm)
    \<and> f_output_raw (g_u32_target_rpm s1) rpm (f_esum s1)
           = fadd (fmul g_f_kp (f_error (g_u32_target_rpm s1) rpm)) (fmul g_f_ki (f_esum s1))
    \<and> g_f_kp = f32_of_rat (4 / 100) \<and> g_f_ki = f32_of_rat (3 / 100)
    \<and> g_f_ta = f32_of_rat (2 / 100)
    \<and> (f32_in_range (f_output_raw (g_u32_target_rpm s1) rpm (f_esum s1)) 0 100 \<longrightarrow>
          pi_step (g_u32_target_rpm s1) rpm (f_esum s1)
            = (f_output_raw (g_u32_target_rpm s1) rpm (f_esum s1),
               fadd (f_esum s1) (fmul (f_error (g_u32_target_rpm s1) rpm) g_f_ta)))
    \<and> (\<not> f32_in_range (f_output_raw (g_u32_target_rpm s1) rpm (f_esum s1)) 0 100 \<longrightarrow>
          (pi_step (g_u32_target_rpm s1) rpm (f_esum s1) = (Fin False 100, f_esum s1)
           \<and> fgt (f_output_raw (g_u32_target_rpm s1) rpm (f_esum s1)) (Fin False 100))
          \<or> (pi_step (g_u32_target_rpm s1) rpm (f_esum s1) = (Fin False 0, f_esum s1)
           \<and> flt (f_output_raw (g_u32_target_rpm s1) rpm (f_esum s1)) (Fin False 0)))
    \<and> (\<exists>c. fan_update_pi_controller mgm tick s
              = Inr (s1\<lparr>f_esum := snd (pi_step (g_u32_target_rpm s1) rpm (f_esum s1)),
                       tim9_ccr1 := c\<rparr>))
    \<and> f_output_raw 5000 0 (Fin False 0) = Fin False 200
    \<and> pi_step 5000 0 (Fin False 0) = (Fin False 100, Fin False 0)"
proof -
  let ?e = "f_error (g_u32_target_rpm s1) rpm"
  let ?raw = "f_output_raw (g_u32_target_rpm s1) rpm (f_esum s1)"
  have inv: "f_esum s1 \<noteq> NaN"
    using reachable_invariant [OF assms(1)] read_frame(1) [OF assms(2)] by simp
  have nn: "?raw \<noteq> NaN" using inv by (rule f_output_raw_not_NaN)
  note iff = in_range_iff_no_limit [OF nn]
  have e: "?e = fsub (u32_to_f32 (g_u32_target_rpm s1)) (u32_to_f32 rpm)"
    by (simp only: f_error_def)
  have raw: "?raw = fadd (fmul g_f_kp ?e) (fmul g_f_ki (f_esum s1))"
    by (simp only: f_output_raw_def)
  have inside: "f32_in_range ?raw 0 100 \<longrightarrow>
      pi_step (g_u32_target_rpm s1) rpm (f_esum s1) = (?raw, fadd (f_esum s1) (fmul ?e g_f_ta))"
    unfolding iff by (simp add: pi_step_def Let_def)
  have outside: "\<not> f32_in_range ?raw 0 100 \<longrightarrow>
      (pi_step (g_u32_target_rpm s1) rpm (f_esum s1) = (Fin False 100, f_esum s1)
       \<and> fgt ?raw (Fin False 100))
      \<or> (pi_step (g_u32_target_rpm s1) rpm (f_esum s1) = (Fin False 0, f_esum s1)
       \<and> flt ?raw (Fin False 0))"
    unfolding iff by (auto simp: pi_step_def Let_def)
  obtain c where "fan_update_pi_controller mgm tick s
              = Inr (s1\<lparr>f_esum := snd (pi_step (g_u32_target_rpm s1) rpm (f_esum s1)),
                       tim9_ccr1 := c\<rparr>)"
    by (rule update_completes [OF assms])
  then have completes: "\<exists>c. fan_update_pi_controller mgm tick s
              = Inr (s1\<lparr>f_esum := snd (pi_step (g_u32_target_rpm s1) rpm (f_esum s1)),
                       tim9_ccr1 := c\<rparr>)"
    by (rule exI)
  have scenario: "f_output_raw 5000 0 (Fin False 0) = Fin False 200"
    "pi_step 5000 0 (Fin False 0) = (Fin False 100, Fin False 0)"
    by code_simp+
  show ?thesis
    by (intro conjI)
       (fact e raw g_f_kp_def g_f_ki_def g_f_ta_def inside outside completes scenario)+
qed

theorem pi_cycle_witness:
  "reachable pass_through () (idle_state 5000)
   \<and> fan_get_filtered_rpm pass_through 0 (idle_state 5000) = Inr (0, idle_state 5000)
   \<and> \<not> f32_in_range (f_output_raw 5000 0 (Fin False 0)) 0 100
   \<and> pi_step 5000 0 (Fin False 0) = (Fin False 100, Fin False 0)
   \<and> (\<exists>c. fan_update_pi_controller pass_through 0 (idle_state 5000)
            = Inr ((idle_state 5000)\<lparr>f_esum := Fin False 0, tim9_ccr1 := c\<rparr>))"
proof -
  note t = pi_cycle [OF idle_state_reachable idle_state_read, of 5000, unfolded idle_state_fields]
  from t have s: "pi_step 5000 0 (Fin False 0) = (Fin False 100, Fin False 0)"
    by (elim conjE)
  have r: "\<not> f32_in_range (f_output_raw 5000 0 (Fin False 0)) 0 100"
    by code_simp
  from t have "\<exists>c. fan_update_pi_controller pass_through 0 (idle_state 5000)
            = Inr ((idle_state 5000)\<lparr>f_esum := snd (pi_step 5000 0 (Fin False 0)), tim9_ccr1 := c\<rparr>)"
    by (elim conjE)
  then have u: "\<exists>c. fan_update_pi_controller pass_through 0 (idle_state 5000)
            = Inr ((idle_state 5000)\<lparr>f_esum := Fin False 0, tim9_ccr1 := c\<rparr>)"
    unfolding s by simp
  show ?thesis
    by (intro conjI) (fact idle_state_reachable idle_state_read r s u)+
qed

text \<open>
  C2. In every reachable state, a controller cycle that gets its filtered speed limits the
  raw output to at most 100 and at least 0: the output it uses is 100 when the raw
  output is greater than 100, 0 when it is less than 0, and the raw output otherwise; it
  is a finite number from 0 to 100, and the compare register is set from it.
\<close>

theorem output_in_range:
  assumes "reachable mgm f0 s" and "fan_get_filtered_rpm mgm tick s = Inr (rpm, s1)"
  shows "\<exists>f_output esum c.
           pi_step (g_u32_target_rpm s1) rpm (f_esum s1) = (f_output, esum)
         \<and> f_output =
             (if fgt (f_output_raw (g_u32_target_rpm s1) rpm (f_esum s1)) (Fin False 100)
              then Fin False 100
              else if flt (f_output_raw (g_u32_target_rpm s1) rpm (f_esum s1)) (Fin False 0)
              then Fin False 0
              else f_output_raw (g_u32_target_rpm s1) rpm (f_esum s1))
         \<and> f32_in_range f_output 0 100
         \<and> compare_of (tim9_period s1) f_output = Inr c
         \<and> fan_update_pi_controller mgm tick s = Inr (s1\<lparr>f_esum := esum, tim9_ccr1 := c\<rparr>)"
proof -
  obtain sg m c where u:
      "fst (pi_step (g_u32_target_rpm s1) rpm (f_esum s1)) = Fin sg m"
      "0 \<le> m" "m \<le> 100" "sg \<longrightarrow> m = 0"
      "tim9_period s1 = 399"
      "compare_of (tim9_period s1) (Fin sg m) = Inr c"
      "\<lfloor>400 * m / 100\<rfloor> \<le> int (unat c)" "int (unat c) \<le> \<lceil>400 * m / 100\<rceil>"
      "fan_update_pi_controller mgm tick s
         = Inr (s1\<lparr>f_esum := snd (pi_step (g_u32_target_rpm s1) rpm (f_esum s1)),
                  tim9_ccr1 := c\<rparr>)"
    by (rule update_completes [OF assms])
  have p: "pi_step (g_u32_target_rpm s1) rpm (f_esum s1)
             = (Fin sg m, snd (pi_step (g_u32_target_rpm s1) rpm (f_esum s1)))"
    using u(1) by (metis prod.collapse)
  have sel: "Fin sg m =
             (if fgt (f_output_raw (g_u32_target_rpm s1) rpm (f_esum s1)) (Fin False 100)
              then Fin False 100
              else if flt (f_output_raw (g_u32_target_rpm s1) rpm (f_esum s1)) (Fin False 0)
              then Fin False 0
              else f_output_raw (g_u32_target_rpm s1) rpm (f_esum s1))"
    using u(1) by (simp add: pi_step_def Let_def split: if_splits)
  have rng: "f32_in_range (Fin sg m) 0 100"
    using u(2,3,4) by (auto simp: f32_in_range_def fin_val_def)
  show ?thesis
    by (intro exI [where x = "Fin sg m"] exI [where x = c]
        exI [where x = "snd (pi_step (g_u32_target_rpm s1) rpm (f_esum s1))"] conjI)
       (fact p sel rng u(6) u(9))+
qed

theorem output_in_range_witness:
  "reachable pass_through () (idle_state 1000)
   \<and> fan_get_filtered_rpm pass_through 0 (idle_state 1000) = Inr (0, idle_state 1000)
   \<and> pi_step 1000 0 (Fin False 0) = (Fin False 40, Fin False 20)
   \<and> f32_in_range (Fin False 40) 0 100
   \<and> (\<exists>c. fan_update_pi_controller pass_through 0 (idle_state 1000)
            = Inr ((idle_state 1000)\<lparr>f_esum := Fin False 20, tim9_ccr1 := c\<rparr>))"
proof -
  have s: "pi_step 1000 0 (Fin False 0) = (Fin False 40, Fin False 20)"
    by code_simp
  from output_in_range [OF idle_state_reachable idle_state_read, of 1000,
      unfolded idle_state_fields]
  obtain f_output esum c where w:
      "pi_step 1000 0 (Fin False 0) = (f_output, esum)" "f32_in_range f_output 0 100"
      "fan_update_pi_controller pass_through 0 (idle_state 1000)
         = Inr ((idle_state 1000)\<lparr>f_esum := esum, tim9_ccr1 := c\<rparr>)"
    by blast
  have v: "f_output = Fin False 40" "esum = Fin False 20" using w(1) unfolding s by simp_all
  have r: "f32_in_range (Fin False 40) 0 100" using w(2) unfolding v .
  have "fan_update_pi_controller pass_through 0 (idle_state 1000)
         = Inr ((idle_state 1000)\<lparr>f_esum := Fin False 20, tim9_ccr1 := c\<rparr>)"
    using w(3) unfolding v .
  then have u: "\<exists>c. fan_update_pi_controller pass_through 0 (idle_state 1000)
            = Inr ((idle_state 1000)\<lparr>f_esum := Fin False 20, tim9_ccr1 := c\<rparr>)"
    by (rule exI)
  show ?thesis
    by (intro conjI) (fact idle_state_reachable idle_state_read s r u)+
qed

text \<open>
  C9. In every reachable state the period length is 400 (the period register holds 399),
  and a controller cycle that gets its filtered speed writes to the compare register the
  value of \<open>400 * f_output / 100\<close>, computed in single precision and converted to the
  register's unsigned type, for the output already limited to [0, 100]. The conversion
  is defined; the written value is at most 400 and lies between the exact quotient
  \<open>400 * f_output / 100\<close> rounded down and rounded up, so it is that quotient whenever
  the quotient is an integer.
\<close>

theorem compare_written:
  assumes "reachable mgm f0 s" and "fan_get_filtered_rpm mgm tick s = Inr (rpm, s1)"
  shows "tim9_period s1 = 399 \<and> tim9_period s1 + 1 = 400
    \<and> (\<exists>sg m esum c.
           pi_step (g_u32_target_rpm s1) rpm (f_esum s1) = (Fin sg m, esum)
         \<and> 0 \<le> fin_val sg m \<and> fin_val sg m \<le> 100
         \<and> f32_to_u32 (fdiv (fmul (u32_to_f32 (tim9_period s1 + 1)) (Fin sg m)) (Fin False 100))
             = Inr c
         \<and> fan_update_pi_controller mgm tick s = Inr (s1\<lparr>f_esum := esum, tim9_ccr1 := c\<rparr>)
         \<and> tim9_ccr1 (s1\<lparr>f_esum := esum, tim9_ccr1 := c\<rparr>) = c
         \<and> \<lfloor>400 * fin_val sg m / 100\<rfloor> \<le> int (unat c)
         \<and> int (unat c) \<le> \<lceil>400 * fin_val sg m / 100\<rceil>
         \<and> unat c \<le> 400
         \<and> (\<forall>j. 400 * fin_val sg m / 100 = of_int j \<longrightarrow> int (unat c) = j))"
proof -
  obtain sg m c where u:
      "fst (pi_step (g_u32_target_rpm s1) rpm (f_esum s1)) = Fin sg m"
      "0 \<le> m" "m \<le> 100" "sg \<longrightarrow> m = 0"
      "tim9_period s1 = 399"
      "compare_of (tim9_period s1) (Fin sg m) = Inr c"
      "\<lfloor>400 * m / 100\<rfloor> \<le> int (unat c)" "int (unat c) \<le> \<lceil>400 * m / 100\<rceil>"
      "fan_update_pi_controller mgm tick s
         = Inr (s1\<lparr>f_esum := snd (pi_step (g_u32_target_rpm s1) rpm (f_esum s1)),
                  tim9_ccr1 := c\<rparr>)"
    by (rule update_completes [OF assms])
  let ?esum = "snd (pi_step (g_u32_target_rpm s1) rpm (f_esum s1))"
  have p: "pi_step (g_u32_target_rpm s1) rpm (f_esum s1) = (Fin sg m, ?esum)"
    using u(1) by (metis prod.collapse)
  have v: "fin_val sg m = m" using u(4) by (auto simp: fin_val_def)
  have conv: "f32_to_u32 (fdiv (fmul (u32_to_f32 (tim9_period s1 + 1)) (Fin sg m))
                (Fin False 100)) = Inr c"
    using u(6) by (simp add: compare_of_def)
  have "\<lceil>400 * m / 100\<rceil> \<le> 400" using u(3) by (simp add: ceiling_le_iff)
  then have "int (unat c) \<le> 400" using u(8) by linarith
  then have le: "unat c \<le> 400" by linarith
  have exact: "\<forall>j. 400 * fin_val sg m / 100 = of_int j \<longrightarrow> int (unat c) = j"
  proof (intro allI impI)
    fix j :: int
    assume "400 * fin_val sg m / 100 = of_int j"
    then have "400 * m / 100 = of_int j" unfolding v .
    then have "\<lfloor>400 * m / 100\<rfloor> = j" "\<lceil>400 * m / 100\<rceil> = j" by simp_all
    then show "int (unat c) = j" using u(7,8) by linarith
  qed
  have p1: "tim9_period s1 + 1 = 400" using u(5) by simp
  have sel: "tim9_ccr1 (s1\<lparr>f_esum := ?esum, tim9_ccr1 := c\<rparr>) = c" by simp
  have lo: "0 \<le> fin_val sg m" and hi: "fin_val sg m \<le> 100" using u(2,3) v by simp_all
  have fl: "\<lfloor>400 * fin_val sg m / 100\<rfloor> \<le> int (unat c)"
    and ce: "int (unat c) \<le> \<lceil>400 * fin_val sg m / 100\<rceil>"
    using u(7,8) unfolding v by simp_all
  show ?thesis
    by (intro conjI exI [where x = sg] exI [where x = m] exI [where x = c]
        exI [where x = ?esum])
       (fact u(5) p1 p lo hi conv u(9) sel fl ce le exact)+
qed

theorem compare_written_witness:
  "reachable pass_through () (idle_state 1250)
   \<and> fan_get_filtered_rpm pass_through 0 (idle_state 1250) = Inr (0, idle_state 1250)
   \<and> pi_step 1250 0 (Fin False 0) = (Fin False 50, Fin False 25)
   \<and> fan_update_pi_controller pass_through 0 (idle_state 1250)
       = Inr ((idle_state 1250)\<lparr>f_esum := Fin False 25, tim9_ccr1 := 200\<rparr>)"
proof -
  have s: "pi_step 1250 0 (Fin False 0) = (Fin False 50, Fin False 25)"
    by code_simp
  from compare_written [OF idle_state_reachable idle_state_read, of 1250,
      unfolded idle_state_fields]
  obtain sg m esum c where w:
      "pi_step 1250 0 (Fin False 0) = (Fin sg m, esum)"
      "fan_update_pi_controller pass_through 0 (idle_state 1250)
         = Inr ((idle_state 1250)\<lparr>f_esum := esum, tim9_ccr1 := c\<rparr>)"
      "\<forall>j. 400 * fin_val sg m / 100 = of_int j \<longrightarrow> int (unat c) = j"
    by blast
  have sm: "sg = False" "m = 50" "esum = Fin False 25" using w(1) unfolding s by simp_all
  have "400 * fin_val sg m / 100 = of_int 200" unfolding sm by (simp add: fin_val_def)
  then have "int (unat c) = 200" using w(3) by (elim allE impE)
  then have "unat c = 200" by linarith
  moreover have "unat (200 :: u32) = 200" by simp
  ultimately have "unat c = unat (200 :: u32)" by (simp only:)
  then have c: "c = 200" by (simp only: word_unat_eq_iff)
  have u: "fan_update_pi_controller pass_through 0 (idle_state 1250)
       = Inr ((idle_state 1250)\<lparr>f_esum := Fin False 25, tim9_ccr1 := 200\<rparr>)"
    using w(2) unfolding sm c .
  show ?thesis
    by (intro conjI) (fact idle_state_reachable idle_state_read s u)+
qed

end
